theory Spec2Isabelle
  imports Complex_Main
begin

section \<open>Data model of \<open>plot_explicit_2d\<close>\<close>

text \<open>
  The class \<open>ExplicitSingleValueCurve2D\<close> holds a vector of x values, a vector of
  optional y values and an array of \<open>Interval\<close> nodes (a complete binary tree, node
  \<open>i\<close> with children \<open>2*i+1\<close> and \<open>2*i+2\<close>). A \<open>double\<close> is modelled as a real number,
  an index (\<open>size_t\<close>, \<open>uint32_t\<close>, non-negative \<open>int\<close>) as a natural number; the
  constructor refuses the sizes for which the \<open>int\<close> arithmetic of the source would
  overflow, so no index wraps around.
\<close>

datatype error =
    AssertionFailed
  | IntOverflow
  | XValuesOutOfRange nat
  | YValuesOutOfRange nat
  | IntervalsOutOfRange nat

record Interval =
  lo_idx :: nat
  hi_idx :: nat
  min_max :: "(real \<times> real) option"

text \<open>
  \<open>std::vector::operator[]\<close> and the subscript of \<open>std::unique_ptr<Interval[]>\<close> check
  nothing. An index below the size reads the element. An index at or past the size is
  outside the array: what such a read does is not defined by the language; on a concrete
  run it either yields whatever the memory behind the array holds or it faults. The
  model keeps both outcomes: an array is its elements \<open>elems\<close> together with \<open>stray\<close>,
  the readable cells that follow it in memory (possibly none). A read inside \<open>elems\<close>
  is in bounds, a read inside \<open>stray\<close> is out of bounds and yields the stray cell, and a
  read past both is an error value. With \<open>stray = []\<close> every out-of-bounds read is an
  error; theorems that hold for every \<open>stray\<close> hold whatever the memory contains. The x
  values are read only at positions the binary searches return; their reads are checked,
  and a position outside the vector is an error value.
\<close>

record 'a array =
  elems :: "'a list"
  stray :: "'a list"

record curve =
  x_values :: "real list"
  y_values :: "real option array"
  intervals :: "Interval array"

definition read_at :: "'a array \<Rightarrow> nat \<Rightarrow> 'a option" where
  "read_at a i =
     (if i < length (elems a) then Some (elems a ! i)
      else if i - length (elems a) < length (stray a)
           then Some (stray a ! (i - length (elems a)))
      else None)"

definition x_at :: "curve \<Rightarrow> nat \<Rightarrow> error + real" where
  "x_at c i =
     (if i < length (x_values c) then Inr (x_values c ! i) else Inl (XValuesOutOfRange i))"

definition y_at :: "curve \<Rightarrow> nat \<Rightarrow> error + real option" where
  "y_at c i =
     (case read_at (y_values c) i of
        Some v \<Rightarrow> Inr v
      | None \<Rightarrow> Inl (YValuesOutOfRange i))"

definition interval_at :: "curve \<Rightarrow> nat \<Rightarrow> error + Interval" where
  "interval_at c i =
     (case read_at (intervals c) i of
        Some v \<Rightarrow> Inr v
      | None \<Rightarrow> Inl (IntervalsOutOfRange i))"

text \<open>The assignment \<open>intervals_[i] = v\<close>; the source only writes allocated nodes.\<close>

definition set_interval :: "curve \<Rightarrow> nat \<Rightarrow> Interval \<Rightarrow> error + curve" where
  "set_interval c i v =
     (if i < length (elems (intervals c))
      then Inr (c\<lparr>intervals := (intervals c)\<lparr>elems := (elems (intervals c))[i := v]\<rparr>\<rparr>)
      else Inl (IntervalsOutOfRange i))"

text \<open>Sequencing of two steps of which the first may stop with an error.\<close>

definition and_then :: "error + 'a \<Rightarrow> ('a \<Rightarrow> error + 'b) \<Rightarrow> error + 'b" where
  "and_then m f = (case m of Inl e \<Rightarrow> Inl e | Inr v \<Rightarrow> f v)"

lemma and_then_cong [fundef_cong]:
  "m = m' \<Longrightarrow> (\<And>v. m' = Inr v \<Longrightarrow> f v = f' v) \<Longrightarrow> and_then m f = and_then m' f'"
  by (cases m') (simp_all add: and_then_def)

lemma and_then_Inr [simp]: "and_then (Inr v) f = f v"
  by (simp add: and_then_def)

lemma and_then_Inl [simp]: "and_then (Inl e) f = Inl e"
  by (simp add: and_then_def)

section \<open>\<open>CeilingLog2\<close>\<close>

text \<open>
  The loop of \<open>CeilingLog2\<close> on the state \<open>(i, k, is_power_of_2)\<close>: it counts the bits
  of \<open>i\<close> and clears the flag when a bit other than the top one is set.
\<close>

function CeilingLog2_loop :: "nat \<Rightarrow> int \<Rightarrow> bool \<Rightarrow> int \<times> bool" where
  "CeilingLog2_loop i k is_power_of_2 =
     (if i > 0
      then CeilingLog2_loop (i div 2) (k + 1)
             (if i > 1 \<and> odd i then False else is_power_of_2)
      else (k, is_power_of_2))"
  by pat_completeness auto
termination
  by (relation "measure (\<lambda>(i, k, p). i)") auto

declare CeilingLog2_loop.simps [simp del]

definition CeilingLog2 :: "nat \<Rightarrow> int" where
  "CeilingLog2 i =
     (case CeilingLog2_loop i 0 True of
        (k, is_power_of_2) \<Rightarrow> if is_power_of_2 then k - 1 else k)"

section \<open>Gap-aware helpers\<close>

definition GetOneOf :: "real option \<Rightarrow> real option \<Rightarrow> (real \<Rightarrow> real \<Rightarrow> real) \<Rightarrow> real option" where
  "GetOneOf a b comp_func =
     (case (a, b) of
        (Some va, Some vb) \<Rightarrow> Some (comp_func va vb)
      | (Some va, None) \<Rightarrow> Some va
      | (None, Some vb) \<Rightarrow> Some vb
      | (None, None) \<Rightarrow> None)"

definition GetMinMax :: "real option \<Rightarrow> real option \<Rightarrow> (real \<times> real) option" where
  "GetMinMax a b =
     (case (a, b) of
        (Some va, Some vb) \<Rightarrow> Some (min va vb, max va vb)
      | (Some va, None) \<Rightarrow> Some (va, va)
      | (None, Some vb) \<Rightarrow> Some (vb, vb)
      | (None, None) \<Rightarrow> None)"

text \<open>
  The four-way branch on two optional (min, max) pairs that the source writes out twice,
  once for the two children of a node in \<open>FillIntervals\<close> and once for the two partial
  results in \<open>GetMinMaxOverIndexInterval\<close>.
\<close>

definition combine_min_max ::
  "(real \<times> real) option \<Rightarrow> (real \<times> real) option \<Rightarrow> (real \<times> real) option" where
  "combine_min_max p1 p2 =
     (case (p1, p2) of
        (Some (min1, max1), Some (min2, max2)) \<Rightarrow> Some (min min1 min2, max max1 max2)
      | (Some v1, None) \<Rightarrow> Some v1
      | (None, Some v2) \<Rightarrow> Some v2
      | (None, None) \<Rightarrow> None)"

section \<open>\<open>FillIntervals\<close>\<close>

text \<open>
  The lowest layer: the loop over \<open>i\<close> from \<open>layer_start\<close> to \<open>layer_end\<close>, with the
  running \<open>interval_start\<close>; \<open>width\<close> is \<open>1 << (k - layer)\<close>, which is 2 in this layer.
  The y values at both ends of the interval are read with the unchecked subscript.
\<close>

function fill_lowest_layer :: "nat \<Rightarrow> nat \<Rightarrow> nat \<Rightarrow> nat \<Rightarrow> curve \<Rightarrow> error + curve" where
  "fill_lowest_layer width layer_end i interval_start c =
     (if i < layer_end
      then let lo = interval_start;
               hi = interval_start + width - 1
           in and_then (y_at c lo) (\<lambda>y_lo.
              and_then (y_at c hi) (\<lambda>y_hi.
              and_then (set_interval c i
                          \<lparr>lo_idx = lo, hi_idx = hi, min_max = GetMinMax y_lo y_hi\<rparr>) (\<lambda>c'.
              fill_lowest_layer width layer_end (i + 1) (hi + 1) c')))
      else Inr c)"
  by pat_completeness auto
termination
  by (relation "measure (\<lambda>(width, layer_end, i, interval_start, c). layer_end - i)") auto

declare fill_lowest_layer.simps [simp del]

text \<open>
  One higher layer: node \<open>i\<close> gets its index range and the combination of the stored
  values of its children \<open>2*i+1\<close> and \<open>2*i+2\<close>; \<open>width\<close> is \<open>1 << (k - layer)\<close>.
\<close>

function fill_higher_layer :: "nat \<Rightarrow> nat \<Rightarrow> nat \<Rightarrow> nat \<Rightarrow> curve \<Rightarrow> error + curve" where
  "fill_higher_layer width layer_end i interval_start c =
     (if i < layer_end
      then let child_1 = 2 * i + 1;
               child_2 = 2 * i + 2;
               lo = interval_start;
               hi = interval_start + width - 1
           in and_then (interval_at c child_1) (\<lambda>n1.
              and_then (interval_at c child_2) (\<lambda>n2.
              and_then (set_interval c i
                          \<lparr>lo_idx = lo, hi_idx = hi,
                           min_max = combine_min_max (min_max n1) (min_max n2)\<rparr>) (\<lambda>c'.
              fill_higher_layer width layer_end (i + 1) (hi + 1) c')))
      else Inr c)"
  by pat_completeness auto
termination
  by (relation "measure (\<lambda>(width, layer_end, i, interval_start, c). layer_end - i)") auto

declare fill_higher_layer.simps [simp del]

text \<open>
  The loop \<open>for (int layer = k - 2; layer >= 0; --layer)\<close>: the argument counts the
  layers still to fill, so \<open>Suc layer\<close> fills \<open>layer\<close> and goes on with the layers above.
\<close>

fun fill_higher_layers :: "nat \<Rightarrow> nat \<Rightarrow> curve \<Rightarrow> error + curve" where
  "fill_higher_layers k 0 c = Inr c"
| "fill_higher_layers k (Suc layer) c =
     and_then (fill_higher_layer (2 ^ (k - layer)) (2 ^ layer - 1 + 2 ^ layer) (2 ^ layer - 1) 0 c)
       (\<lambda>c'. fill_higher_layers k layer c')"

text \<open>
  \<open>FillIntervals\<close> computes \<open>k\<close> again from the size of the y values. The constructor
  calls it only for a size above 1 and at most \<open>2 ^ 30\<close>, where \<open>1 \<le> k \<le> 30\<close> (lemma
  \<open>CeilingLog2_spec\<close> below), so \<open>layer = k - 1\<close> is not negative and the shifts fit in \<open>int\<close>.
\<close>

definition FillIntervals :: "curve \<Rightarrow> error + curve" where
  "FillIntervals c =
     (let k = nat (CeilingLog2 (length (elems (y_values c))));
          layer = k - 1
      in and_then (fill_lowest_layer (2 ^ (k - layer)) (2 ^ layer - 1 + 2 ^ layer)
                     (2 ^ layer - 1) 0 c)
           (\<lambda>c'. fill_higher_layers k (k - 1) c'))"

section \<open>The constructor\<close>

text \<open>The assertion loop \<open>x[i] > x[i-1]\<close> for \<open>i = 1 .. size-1\<close>.\<close>

fun strictly_increasing :: "real list \<Rightarrow> bool" where
  "strictly_increasing (a # b # rest) = (b > a \<and> strictly_increasing (b # rest))"
| "strictly_increasing _ = True"

text \<open>
  The constructor takes the two vectors; \<open>iv_stray\<close> is the memory behind the freshly
  allocated node array. \<open>std::make_unique<Interval[]>(n)\<close> value-initialises the nodes.
  \<open>(1 << k) - 1\<close> is computed in \<open>int\<close>: for \<open>k > 30\<close> it is not representable, and the
  model stops there, so that all later index arithmetic fits.
\<close>

definition ExplicitSingleValueCurve2D ::
  "real list \<Rightarrow> real option array \<Rightarrow> Interval list \<Rightarrow> error + curve" where
  "ExplicitSingleValueCurve2D xs ys iv_stray =
     (if length xs \<noteq> length (elems ys) then Inl AssertionFailed
      else if xs = [] then Inl AssertionFailed
      else if \<not> strictly_increasing xs then Inl AssertionFailed
      else let k = CeilingLog2 (length (elems ys))
           in if k < 0 \<or> 30 < k then Inl IntOverflow
              else let num_intervals = 2 ^ nat k - 1;
                       c = \<lparr>x_values = xs, y_values = ys,
                            intervals = \<lparr>elems = replicate num_intervals
                                                   \<lparr>lo_idx = 0, hi_idx = 0, min_max = None\<rparr>,
                                         stray = iv_stray\<rparr>\<rparr>
                   in if length (elems ys) > 1 then FillIntervals c else Inr c)"

text \<open>
  What the three assertions of the constructor leave true of every curve object. The
  binary searches below are only meaningful on such a curve.
\<close>

definition valid_curve :: "curve \<Rightarrow> bool" where
  "valid_curve c \<longleftrightarrow>
     length (x_values c) = length (elems (y_values c)) \<and> x_values c \<noteq> [] \<and>
     strictly_increasing (x_values c)"

section \<open>\<open>GetMinMaxOverIndexInterval\<close>\<close>

text \<open>
  The recursive descent. Every node is read with the unchecked subscript before it is
  used: the node \<open>interval_idx\<close> for the exact-match test, the first child for the
  containment test, the second child when the first test fails.
\<close>

function GetMinMaxOverIndexInterval ::
  "curve \<Rightarrow> nat \<Rightarrow> nat \<Rightarrow> nat \<Rightarrow> error + (real \<times> real) option" where
  "GetMinMaxOverIndexInterval c lo hi interval_idx =
     and_then (interval_at c interval_idx) (\<lambda>node.
       if lo_idx node = lo \<and> hi_idx node = hi then Inr (min_max node)
       else if lo = hi then
         and_then (y_at c lo) (\<lambda>y.
           case y of Some v \<Rightarrow> Inr (Some (v, v)) | None \<Rightarrow> Inr None)
       else
         let child1_idx = 2 * interval_idx + 1;
             child2_idx = 2 * interval_idx + 2
         in and_then (interval_at c child1_idx) (\<lambda>child1.
              if lo \<ge> lo_idx child1 \<and> hi \<le> hi_idx child1
              then GetMinMaxOverIndexInterval c lo hi child1_idx
              else and_then (interval_at c child2_idx) (\<lambda>child2.
                if lo \<ge> lo_idx child2 \<and> hi \<le> hi_idx child2
                then GetMinMaxOverIndexInterval c lo hi child2_idx
                else
                  and_then (GetMinMaxOverIndexInterval c lo (hi_idx child1) child1_idx) (\<lambda>partial1.
                  and_then (GetMinMaxOverIndexInterval c (lo_idx child2) hi child2_idx) (\<lambda>partial2.
                  Inr (combine_min_max partial1 partial2))))))"
  by pat_completeness auto

lemma interval_at_InrD:
  "interval_at c i = Inr v \<Longrightarrow> i < length (elems (intervals c)) + length (stray (intervals c))"
  by (auto simp: interval_at_def read_at_def split: if_splits option.splits)

termination GetMinMaxOverIndexInterval
  apply (relation "measure (\<lambda>(c, lo, hi, interval_idx).
           length (elems (intervals c)) + length (stray (intervals c)) - interval_idx)")
   apply (auto dest!: interval_at_InrD)
  done

declare GetMinMaxOverIndexInterval.simps [simp del]

section \<open>\<open>GetMinMaxOverDomainInterval\<close>\<close>

text \<open>
  On a sorted range \<open>std::lower_bound\<close> gives the position of the first element that is
  not less than the value, \<open>std::upper_bound\<close> the position of the first element the value
  is less than; the position \<open>length xs\<close> is \<open>end()\<close>. The x values of a curve are strictly
  increasing, so the result of the library's binary search is the one computed here.
\<close>

definition lower_bound :: "real list \<Rightarrow> real \<Rightarrow> nat" where
  "lower_bound xs v = length (takeWhile (\<lambda>x. x < v) xs)"

definition upper_bound :: "real list \<Rightarrow> real \<Rightarrow> nat" where
  "upper_bound xs v = length (takeWhile (\<lambda>x. \<not> v < x) xs)"

text \<open>
  The local \<open>lo_interp\<close>: the conjunction is evaluated left to right and stops at the
  first false conjunct, so \<open>lo - 1\<close> is only formed when \<open>lo > 0\<close>.
\<close>

definition lo_interp :: "curve \<Rightarrow> real \<Rightarrow> nat \<Rightarrow> error + real option" where
  "lo_interp c xmin lo =
     and_then (x_at c lo) (\<lambda>x_lo.
       if \<not> x_lo > xmin then Inr None
       else if \<not> lo > 0 then Inr None
       else and_then (y_at c lo) (\<lambda>y_lo.
         case y_lo of None \<Rightarrow> Inr None | Some v_lo \<Rightarrow>
         and_then (y_at c (lo - 1)) (\<lambda>y_prev.
           case y_prev of None \<Rightarrow> Inr None | Some v_prev \<Rightarrow>
           and_then (x_at c (lo - 1)) (\<lambda>x_prev.
             if \<not> x_prev \<noteq> x_lo then Inr None
             else Inr (Some (v_prev + (xmin - x_prev) / (x_lo - x_prev) * (v_lo - v_prev)))))))"

text \<open>
  The local \<open>hi_interp\<close>. \<open>x_values_->size() - 1\<close> is unsigned; the vector is not empty
  where this is evaluated, so the subtraction does not wrap.
\<close>

definition hi_interp :: "curve \<Rightarrow> real \<Rightarrow> nat \<Rightarrow> error + real option" where
  "hi_interp c xmax hi =
     (if \<not> hi < length (x_values c) - 1 then Inr None
      else and_then (x_at c hi) (\<lambda>x_hi.
        if \<not> x_hi \<noteq> xmax then Inr None
        else and_then (x_at c (hi + 1)) (\<lambda>x_next.
          if \<not> x_next > xmax then Inr None
          else and_then (y_at c hi) (\<lambda>y_hi.
            case y_hi of None \<Rightarrow> Inr None | Some v_hi \<Rightarrow>
            if \<not> x_next \<noteq> x_hi then Inr None
            else and_then (y_at c (hi + 1)) (\<lambda>y_next.
              case y_next of None \<Rightarrow> Inr None | Some v_next \<Rightarrow>
              Inr (Some (v_hi + (xmax - x_hi) / (x_next - x_hi) * (v_next - v_hi))))))))"

text \<open>The final merge of the interior result with the two interpolated values.\<close>

definition merge_inside ::
  "real option \<Rightarrow> real option \<Rightarrow> (real \<times> real) option \<Rightarrow> (real \<times> real) option" where
  "merge_inside lo_val hi_val min_max_inside_interval =
     (case min_max_inside_interval of
        Some (inside_min, inside_max) \<Rightarrow>
          let min_interp = GetOneOf lo_val hi_val min;
              max_interp = GetOneOf lo_val hi_val max;
              actual_min = GetOneOf min_interp (Some inside_min) min;
              actual_max = GetOneOf max_interp (Some inside_max) max
          in (case (actual_min, actual_max) of
                (Some a, Some b) \<Rightarrow> Some (a, b)
              | (Some a, None) \<Rightarrow> Some (a, a)
              | (None, Some b) \<Rightarrow> Some (b, b)
              | (None, None) \<Rightarrow> None)
      | None \<Rightarrow> GetMinMax lo_val hi_val)"

definition GetMinMaxOverDomainInterval ::
  "curve \<Rightarrow> real \<Rightarrow> real \<Rightarrow> error + (real \<times> real) option" where
  "GetMinMaxOverDomainInterval c xmin xmax =
     (let lo_bound = lower_bound (x_values c) xmin
      in if lo_bound = length (x_values c) then Inr None
         else let hi_bound = upper_bound (x_values c) xmax
              in if hi_bound = 0 then Inr None
                 else let lo = lo_bound;
                          hi = hi_bound - 1
                      in and_then (lo_interp c xmin lo) (\<lambda>lo_val.
                         and_then (hi_interp c xmax hi) (\<lambda>hi_val.
                         and_then (if hi \<ge> lo then GetMinMaxOverIndexInterval c lo hi 0
                                   else Inr None) (\<lambda>min_max_inside_interval.
                         Inr (merge_inside lo_val hi_val min_max_inside_interval)))))"

section \<open>Specification-side definitions\<close>

text \<open>
  The linear scan the claims compare the tree against: the values present at the indices
  \<open>lo..hi\<close> of a value sequence, and their minimum and maximum, empty when every
  value in the range is a gap.
\<close>

definition present_values :: "real option list \<Rightarrow> nat \<Rightarrow> nat \<Rightarrow> real list" where
  "present_values ys lo hi = List.map_filter (\<lambda>i. ys ! i) [lo..<Suc hi]"

definition linear_scan :: "real option list \<Rightarrow> nat \<Rightarrow> nat \<Rightarrow> (real \<times> real) option" where
  "linear_scan ys lo hi =
     (let vs = present_values ys lo hi
      in if vs = [] then None else Some (Min (set vs), Max (set vs)))"

text \<open>
  The value at \<open>x\<close> of the straight line through \<open>(x0, y0)\<close> and \<open>(x1, y1)\<close>.
\<close>

definition interpolate :: "real \<Rightarrow> real \<Rightarrow> real \<Rightarrow> real \<Rightarrow> real \<Rightarrow> real" where
  "interpolate x0 y0 x1 y1 x = y0 + (x - x0) / (x1 - x0) * (y1 - y0)"

text \<open>
  The minimum and maximum of a finite set of values, empty for the empty set.
\<close>

definition min_max_of :: "real set \<Rightarrow> (real \<times> real) option" where
  "min_max_of V = (if V = {} then None else Some (Min V, Max V))"

text \<open>
  What a query bound adds to the result, in the words of the specification. A lower bound
  \<open>xmin\<close> that lies strictly between the samples \<open>lo - 1\<close> and \<open>lo\<close> adds the linear
  interpolation at \<open>xmin\<close> when both samples hold a value and nothing when one of them is
  a gap; an upper bound \<open>xmax\<close> strictly between the samples \<open>hi\<close> and \<open>hi + 1\<close> likewise.
  A bound that is on a sample or outside the samples adds nothing.
\<close>

definition lower_boundary_value :: "real list \<Rightarrow> real option list \<Rightarrow> real \<Rightarrow> nat \<Rightarrow> real option" where
  "lower_boundary_value xs ys xmin lo =
     (if 0 < lo \<and> xs ! (lo - 1) < xmin \<and> xmin < xs ! lo
      then (case (ys ! (lo - 1), ys ! lo) of
              (Some y0, Some y1) \<Rightarrow> Some (interpolate (xs ! (lo - 1)) y0 (xs ! lo) y1 xmin)
            | _ \<Rightarrow> None)
      else None)"

definition upper_boundary_value :: "real list \<Rightarrow> real option list \<Rightarrow> real \<Rightarrow> nat \<Rightarrow> real option" where
  "upper_boundary_value xs ys xmax hi =
     (if hi + 1 < length xs \<and> xs ! hi < xmax \<and> xmax < xs ! (hi + 1)
      then (case (ys ! hi, ys ! (hi + 1)) of
              (Some y0, Some y1) \<Rightarrow> Some (interpolate (xs ! hi) y0 (xs ! (hi + 1)) y1 xmax)
            | _ \<Rightarrow> None)
      else None)"

abbreviation nodes :: "curve \<Rightarrow> Interval list" where
  "nodes c \<equiv> elems (intervals c)"

abbreviation y_mem :: "curve \<Rightarrow> real option list" where
  "y_mem c \<equiv> elems (y_values c) @ stray (y_values c)"

text \<open>The position of a node: the node with offset \<open>j\<close> in layer \<open>l\<close>.\<close>

definition node_index :: "nat \<Rightarrow> nat \<Rightarrow> nat" where
  "node_index l j = 2 ^ l - 1 + j"

text \<open>
  The tree as \<open>FillIntervals\<close> leaves it, over the memory \<open>mem\<close> that the y subscript
  reads: the node with offset \<open>j\<close> in layer \<open>l\<close> covers the \<open>2 ^ (k - l)\<close> indices from
  \<open>j * 2 ^ (k - l)\<close> on and stores the scan of \<open>mem\<close> over them.
\<close>

definition tree_filled :: "nat \<Rightarrow> real option list \<Rightarrow> Interval list \<Rightarrow> bool" where
  "tree_filled k mem ns \<longleftrightarrow>
     length ns = 2 ^ k - 1 \<and> 2 ^ k \<le> length mem \<and>
     (\<forall>l j. l < k \<and> j < 2 ^ l \<longrightarrow>
        ns ! node_index l j =
          \<lparr>lo_idx = j * 2 ^ (k - l), hi_idx = j * 2 ^ (k - l) + 2 ^ (k - l) - 1,
           min_max = linear_scan mem (j * 2 ^ (k - l)) (j * 2 ^ (k - l) + 2 ^ (k - l) - 1)\<rparr>)"

text \<open>
  The curves of the examples, as the constructor builds them (lemmas
  \<open>construct_single_sample\<close> to \<open>construct_falling_gap_curve\<close> below). \<open>single_sample\<close> has
  nothing readable behind its empty node array, \<open>single_sample_zeroed\<close> has one zeroed
  cell there. \<open>three_samples\<close> has one readable cell, holding no value, behind its three
  y values.
\<close>

definition single_sample :: curve where
  "single_sample =
     \<lparr>x_values = [0], y_values = \<lparr>elems = [Some 5], stray = []\<rparr>,
      intervals = \<lparr>elems = [], stray = []\<rparr>\<rparr>"

definition single_sample_zeroed :: curve where
  "single_sample_zeroed =
     \<lparr>x_values = [0], y_values = \<lparr>elems = [Some 5], stray = []\<rparr>,
      intervals = \<lparr>elems = [], stray = [\<lparr>lo_idx = 0, hi_idx = 0, min_max = None\<rparr>]\<rparr>\<rparr>"

definition two_samples :: curve where
  "two_samples =
     \<lparr>x_values = [0, 1], y_values = \<lparr>elems = [Some 0, Some 1], stray = []\<rparr>,
      intervals = \<lparr>elems = [\<lparr>lo_idx = 0, hi_idx = 1, min_max = Some (0, 1)\<rparr>], stray = []\<rparr>\<rparr>"

definition three_samples :: curve where
  "three_samples =
     \<lparr>x_values = [0, 1, 2], y_values = \<lparr>elems = [Some 0, Some 1, Some 2], stray = [None]\<rparr>,
      intervals = \<lparr>elems = [\<lparr>lo_idx = 0, hi_idx = 3, min_max = Some (0, 2)\<rparr>,
                              \<lparr>lo_idx = 0, hi_idx = 1, min_max = Some (0, 1)\<rparr>,
                              \<lparr>lo_idx = 2, hi_idx = 3, min_max = Some (2, 2)\<rparr>],
                   stray = []\<rparr>\<rparr>"

definition four_samples :: curve where
  "four_samples =
     \<lparr>x_values = [0, 1, 2, 3],
      y_values = \<lparr>elems = [Some 0, Some (- 1), Some 4, Some 3], stray = []\<rparr>,
      intervals = \<lparr>elems = [\<lparr>lo_idx = 0, hi_idx = 3, min_max = Some (- 1, 4)\<rparr>,
                              \<lparr>lo_idx = 0, hi_idx = 1, min_max = Some (- 1, 0)\<rparr>,
                              \<lparr>lo_idx = 2, hi_idx = 3, min_max = Some (3, 4)\<rparr>],
                   stray = []\<rparr>\<rparr>"

definition gap_curve_b :: curve where
  "gap_curve_b =
     \<lparr>x_values = [0, 1, 2, 3], y_values = \<lparr>elems = [Some 0, Some 1, None, Some 3], stray = []\<rparr>,
      intervals = \<lparr>elems = [\<lparr>lo_idx = 0, hi_idx = 3, min_max = Some (0, 3)\<rparr>,
                              \<lparr>lo_idx = 0, hi_idx = 1, min_max = Some (0, 1)\<rparr>,
                              \<lparr>lo_idx = 2, hi_idx = 3, min_max = Some (3, 3)\<rparr>],
                   stray = []\<rparr>\<rparr>"

text \<open>
  Two curves with falling values: \<open>x = [0, 1]\<close>, \<open>y = [1, 0]\<close>, and
  \<open>x = [0, 1, 2, 3]\<close>, \<open>y = [3, 1, gap, 0]\<close>.
\<close>

definition falling_samples :: curve where
  "falling_samples =
     \<lparr>x_values = [0, 1], y_values = \<lparr>elems = [Some 1, Some 0], stray = []\<rparr>,
      intervals = \<lparr>elems = [\<lparr>lo_idx = 0, hi_idx = 1, min_max = Some (0, 1)\<rparr>], stray = []\<rparr>\<rparr>"

definition falling_gap_curve :: curve where
  "falling_gap_curve =
     \<lparr>x_values = [0, 1, 2, 3],
      y_values = \<lparr>elems = [Some 3, Some 1, None, Some 0], stray = []\<rparr>,
      intervals = \<lparr>elems = [\<lparr>lo_idx = 0, hi_idx = 3, min_max = Some (0, 3)\<rparr>,
                            \<lparr>lo_idx = 0, hi_idx = 1, min_max = Some (1, 3)\<rparr>,
                            \<lparr>lo_idx = 2, hi_idx = 3, min_max = Some (0, 0)\<rparr>],
                   stray = []\<rparr>\<rparr>"

section \<open>Reads and writes\<close>

lemma y_at_Inr_iff: "y_at c i = Inr v \<longleftrightarrow> i < length (y_mem c) \<and> v = y_mem c ! i"
  by (auto simp: y_at_def read_at_def nth_append split: option.splits)

lemma y_at_elems: "i < length (elems (y_values c)) \<Longrightarrow> y_at c i = Inr (elems (y_values c) ! i)"
  by (simp add: y_at_def read_at_def)

lemma interval_at_nodes: "i < length (nodes c) \<Longrightarrow> interval_at c i = Inr (nodes c ! i)"
  by (simp add: interval_at_def read_at_def)

lemma set_interval_Inr:
  "i < length (nodes c) \<Longrightarrow>
   set_interval c i v = Inr (c\<lparr>intervals := (intervals c)\<lparr>elems := (nodes c)[i := v]\<rparr>\<rparr>)"
  by (simp add: set_interval_def)

lemma set_interval_InrD:
  "set_interval c i v = Inr c' \<Longrightarrow>
   i < length (nodes c) \<and> c' = c\<lparr>intervals := (intervals c)\<lparr>elems := (nodes c)[i := v]\<rparr>\<rparr>"
  by (auto simp: set_interval_def split: if_splits)

lemma and_then_InrD: "and_then m f = Inr r \<Longrightarrow> \<exists>v. m = Inr v \<and> f v = Inr r"
  by (cases m) simp_all

section \<open>The layers filled by \<open>FillIntervals\<close>\<close>

lemma fill_higher_layer_result:
  assumes "2 * layer_end < length (nodes c)" and "layer_end \<le> 2 * i + 1" and "0 < w"
  shows "\<exists>c'. fill_higher_layer w layer_end i s c = Inr c'
           \<and> x_values c' = x_values c \<and> y_values c' = y_values c
           \<and> stray (intervals c') = stray (intervals c)
           \<and> length (nodes c') = length (nodes c)
           \<and> (\<forall>j. j < i \<or> layer_end \<le> j \<longrightarrow> nodes c' ! j = nodes c ! j)
           \<and> (\<forall>j. i \<le> j \<and> j < layer_end \<longrightarrow>
                 nodes c' ! j =
                   \<lparr>lo_idx = s + (j - i) * w, hi_idx = s + (j - i) * w + w - 1,
                    min_max = combine_min_max (min_max (nodes c ! (2 * j + 1)))
                                              (min_max (nodes c ! (2 * j + 2)))\<rparr>)"
  using assms
proof (induction "layer_end - i" arbitrary: i s c)
  case 0
  then have "\<not> i < layer_end" by simp
  then show ?case
    by (subst fill_higher_layer.simps) auto
next
  case (Suc d)
  then have lt: "i < layer_end" by simp
  let ?v = "\<lparr>lo_idx = s, hi_idx = s + w - 1,
             min_max = combine_min_max (min_max (nodes c ! (2 * i + 1)))
                                       (min_max (nodes c ! (2 * i + 2)))\<rparr>"
  let ?c1 = "c\<lparr>intervals := (intervals c)\<lparr>elems := (nodes c)[i := ?v]\<rparr>\<rparr>"
  have ilen: "i < length (nodes c)" "2 * i + 1 < length (nodes c)" "2 * i + 2 < length (nodes c)"
    using lt Suc.prems by auto
  have step: "fill_higher_layer w layer_end i s c = fill_higher_layer w layer_end (i + 1) (s + w) ?c1"
    using lt ilen Suc.prems(3)
    by (subst fill_higher_layer.simps) (simp add: Let_def interval_at_nodes set_interval_Inr)
  have d: "d = layer_end - (i + 1)" using Suc.hyps(2) by simp
  have pre: "2 * layer_end < length (nodes ?c1)" "layer_end \<le> 2 * (i + 1) + 1"
    using Suc.prems by auto
  from Suc.hyps(1)[OF d pre Suc.prems(3), of "s + w"]
  obtain c' where c': "fill_higher_layer w layer_end (i + 1) (s + w) ?c1 = Inr c'"
    "x_values c' = x_values ?c1" "y_values c' = y_values ?c1"
    "stray (intervals c') = stray (intervals ?c1)"
    "length (nodes c') = length (nodes ?c1)"
    "\<forall>j. j < i + 1 \<or> layer_end \<le> j \<longrightarrow> nodes c' ! j = nodes ?c1 ! j"
    "\<forall>j. i + 1 \<le> j \<and> j < layer_end \<longrightarrow>
        nodes c' ! j =
          \<lparr>lo_idx = s + w + (j - (i + 1)) * w, hi_idx = s + w + (j - (i + 1)) * w + w - 1,
           min_max = combine_min_max (min_max (nodes ?c1 ! (2 * j + 1)))
                                     (min_max (nodes ?c1 ! (2 * j + 2)))\<rparr>"
    by blast
  have unchanged: "\<forall>j. j < i \<or> layer_end \<le> j \<longrightarrow> nodes c' ! j = nodes c ! j"
    using c'(6) lt by auto
  have written: "nodes c' ! j =
          \<lparr>lo_idx = s + (j - i) * w, hi_idx = s + (j - i) * w + w - 1,
           min_max = combine_min_max (min_max (nodes c ! (2 * j + 1)))
                                     (min_max (nodes c ! (2 * j + 2)))\<rparr>"
    if j: "i \<le> j" "j < layer_end" for j
  proof (cases "j = i")
    case True
    then show ?thesis using c'(6) ilen by simp
  next
    case False
    then have j1: "i + 1 \<le> j" using j by simp
    then have eq: "s + w + (j - (i + 1)) * w = s + (j - i) * w"
      by (metis Suc_diff_le Suc_eq_plus1 add.assoc diff_Suc_Suc mult_Suc)
    have "nodes ?c1 ! (2 * j + 1) = nodes c ! (2 * j + 1)" "nodes ?c1 ! (2 * j + 2) = nodes c ! (2 * j + 2)"
      using j1 by simp_all
    then show ?thesis using c'(7) j1 j(2) eq by simp
  qed
  show ?case
    unfolding step using c'(1-5) unchanged written by auto
qed


lemma fill_lowest_layer_result:
  assumes "fill_lowest_layer 2 layer_end i s c = Inr c'"
  shows "x_values c' = x_values c \<and> y_values c' = y_values c
           \<and> stray (intervals c') = stray (intervals c)
           \<and> length (nodes c') = length (nodes c)
           \<and> (\<forall>j. j < i \<or> layer_end \<le> j \<longrightarrow> nodes c' ! j = nodes c ! j)
           \<and> (\<forall>j. i \<le> j \<and> j < layer_end \<longrightarrow>
                 j < length (nodes c) \<and> s + 2 * (j - i) + 1 < length (y_mem c) \<and>
                 nodes c' ! j =
                   \<lparr>lo_idx = s + 2 * (j - i), hi_idx = s + 2 * (j - i) + 1,
                    min_max = GetMinMax (y_mem c ! (s + 2 * (j - i)))
                                        (y_mem c ! (s + 2 * (j - i) + 1))\<rparr>)"
  using assms
proof (induction "layer_end - i" arbitrary: i s c)
  case 0
  then have "\<not> i < layer_end" by simp
  then have "fill_lowest_layer 2 layer_end i s c = Inr c"
    by (subst fill_lowest_layer.simps) simp
  with 0 show ?case by auto
next
  case (Suc d)
  then have lt: "i < layer_end" by simp
  let ?v = "\<lparr>lo_idx = s, hi_idx = s + 1,
             min_max = GetMinMax (y_mem c ! s) (y_mem c ! (s + 1))\<rparr>"
  let ?c1 = "c\<lparr>intervals := (intervals c)\<lparr>elems := (nodes c)[i := ?v]\<rparr>\<rparr>"
  from Suc.prems lt
  have unf: "and_then (y_at c s) (\<lambda>y_lo.
              and_then (y_at c (s + 1)) (\<lambda>y_hi.
              and_then (set_interval c i
                          \<lparr>lo_idx = s, hi_idx = s + 1, min_max = GetMinMax y_lo y_hi\<rparr>) (\<lambda>c1.
              fill_lowest_layer 2 layer_end (i + 1) (s + 2) c1))) = Inr c'"
    by (subst (asm) fill_lowest_layer.simps) (simp add: Let_def)
  then obtain y_lo y_hi c1 where
    r: "y_at c s = Inr y_lo" "y_at c (s + 1) = Inr y_hi"
       "set_interval c i \<lparr>lo_idx = s, hi_idx = s + 1, min_max = GetMinMax y_lo y_hi\<rparr> = Inr c1"
       "fill_lowest_layer 2 layer_end (i + 1) (s + 2) c1 = Inr c'"
    by (blast dest: and_then_InrD)
  have ys: "s + 1 < length (y_mem c)" "y_lo = y_mem c ! s" "y_hi = y_mem c ! (s + 1)"
    using r(1,2) by (simp_all add: y_at_Inr_iff)
  have ilen: "i < length (nodes c)" and c1: "c1 = ?c1"
    using set_interval_InrD[OF r(3)] ys by simp_all
  have d: "d = layer_end - (i + 1)" using Suc.hyps(2) by simp
  note IH = Suc.hyps(1)[OF d r(4)]
  have same: "x_values c' = x_values c" "y_values c' = y_values c"
    "stray (intervals c') = stray (intervals c)" "length (nodes c') = length (nodes c)"
    using IH c1 by simp_all
  have unchanged: "\<forall>j. j < i \<or> layer_end \<le> j \<longrightarrow> nodes c' ! j = nodes c ! j"
    using IH c1 lt by auto
  have written: "j < length (nodes c) \<and> s + 2 * (j - i) + 1 < length (y_mem c) \<and>
                 nodes c' ! j =
                   \<lparr>lo_idx = s + 2 * (j - i), hi_idx = s + 2 * (j - i) + 1,
                    min_max = GetMinMax (y_mem c ! (s + 2 * (j - i)))
                                        (y_mem c ! (s + 2 * (j - i) + 1))\<rparr>"
    if j: "i \<le> j" "j < layer_end" for j
  proof (cases "j = i")
    case True
    have "nodes c' ! i = nodes c1 ! i" using IH by simp
    then show ?thesis using True ilen ys c1 by simp
  next
    case False
    then have j1: "i + 1 \<le> j" using j by simp
    then have eq: "s + 2 + 2 * (j - (i + 1)) = s + 2 * (j - i)" by simp
    from IH j1 j(2) have
      "j < length (nodes c1) \<and> s + 2 + 2 * (j - (i + 1)) + 1 < length (y_mem c1) \<and>
       nodes c' ! j =
          \<lparr>lo_idx = s + 2 + 2 * (j - (i + 1)), hi_idx = s + 2 + 2 * (j - (i + 1)) + 1,
           min_max = GetMinMax (y_mem c1 ! (s + 2 + 2 * (j - (i + 1))))
                               (y_mem c1 ! (s + 2 + 2 * (j - (i + 1)) + 1))\<rparr>"
      by blast
    then show ?thesis unfolding eq using c1 by simp
  qed
  show ?case using same unchanged written by blast
qed

lemma node_index_children:
  "2 * node_index l j + 1 = node_index (Suc l) (2 * j)"
  "2 * node_index l j + 2 = node_index (Suc l) (2 * j + 1)"
proof -
  obtain m where m: "(2::nat) ^ l = Suc m"
    by (metis not0_implies_Suc power_not_zero zero_neq_numeral)
  show "2 * node_index l j + 1 = node_index (Suc l) (2 * j)"
    "2 * node_index l j + 2 = node_index (Suc l) (2 * j + 1)"
    by (simp_all add: node_index_def m)
qed


lemma node_index_less: "j < 2 ^ l \<Longrightarrow> node_index l j < 2 ^ Suc l - 1"
  by (simp add: node_index_def)

lemma fill_higher_layers_result:
  assumes "length (nodes c) = 2 ^ k - 1" and "m < k"
  shows "\<exists>c'. fill_higher_layers k m c = Inr c'
           \<and> x_values c' = x_values c \<and> y_values c' = y_values c
           \<and> stray (intervals c') = stray (intervals c)
           \<and> length (nodes c') = length (nodes c)
           \<and> (\<forall>i. 2 ^ m - 1 \<le> i \<longrightarrow> nodes c' ! i = nodes c ! i)
           \<and> (\<forall>l j. l < m \<and> j < 2 ^ l \<longrightarrow>
                 nodes c' ! node_index l j =
                   \<lparr>lo_idx = j * 2 ^ (k - l), hi_idx = j * 2 ^ (k - l) + 2 ^ (k - l) - 1,
                    min_max = combine_min_max
                                (min_max (nodes c' ! node_index (Suc l) (2 * j)))
                                (min_max (nodes c' ! node_index (Suc l) (2 * j + 1)))\<rparr>)"
  using assms
proof (induction m arbitrary: c)
  case 0
  then show ?case by simp
next
  case (Suc l0)
  let ?le = "2 ^ l0 - 1 + 2 ^ l0 :: nat"
  have le_eq: "?le = 2 ^ Suc l0 - 1" by simp
  have "(2::nat) ^ (l0 + 2) \<le> 2 ^ k"
    using Suc.prems(2) by (intro power_increasing) simp_all
  then have "4 * (2::nat) ^ l0 \<le> 2 ^ k" by simp
  moreover have "\<And>a b::nat. 1 \<le> a \<Longrightarrow> 4 * a \<le> b \<Longrightarrow> 2 * (a - 1 + a) < b - 1"
    by arith
  ultimately have "2 * ?le < 2 ^ k - 1"
    by (metis one_le_numeral one_le_power)
  then have p1: "2 * ?le < length (nodes c)"
    using Suc.prems(1) by simp
  have p2: "?le \<le> 2 * (2 ^ l0 - 1) + 1" by simp
  have p3: "(0::nat) < 2 ^ (k - l0)" by simp
  from fill_higher_layer_result[OF p1 p2 p3, of 0]
  obtain c1 where c1: "fill_higher_layer (2 ^ (k - l0)) ?le (2 ^ l0 - 1) 0 c = Inr c1"
    "x_values c1 = x_values c" "y_values c1 = y_values c"
    "stray (intervals c1) = stray (intervals c)"
    "length (nodes c1) = length (nodes c)"
    "\<forall>j. j < 2 ^ l0 - 1 \<or> ?le \<le> j \<longrightarrow> nodes c1 ! j = nodes c ! j"
    "\<forall>j. 2 ^ l0 - 1 \<le> j \<and> j < ?le \<longrightarrow>
         nodes c1 ! j =
           \<lparr>lo_idx = 0 + (j - (2 ^ l0 - 1)) * 2 ^ (k - l0),
            hi_idx = 0 + (j - (2 ^ l0 - 1)) * 2 ^ (k - l0) + 2 ^ (k - l0) - 1,
            min_max = combine_min_max (min_max (nodes c ! (2 * j + 1)))
                                      (min_max (nodes c ! (2 * j + 2)))\<rparr>"
    by blast
  have len1: "length (nodes c1) = 2 ^ k - 1" using c1(5) Suc.prems(1) by simp
  have l0k: "l0 < k" using Suc.prems(2) by simp
  from Suc.IH[OF len1 l0k]
  obtain c' where c': "fill_higher_layers k l0 c1 = Inr c'"
    "x_values c' = x_values c1" "y_values c' = y_values c1"
    "stray (intervals c') = stray (intervals c1)"
    "length (nodes c') = length (nodes c1)"
    "\<forall>i. 2 ^ l0 - 1 \<le> i \<longrightarrow> nodes c' ! i = nodes c1 ! i"
    "\<forall>l j. l < l0 \<and> j < 2 ^ l \<longrightarrow>
         nodes c' ! node_index l j =
           \<lparr>lo_idx = j * 2 ^ (k - l), hi_idx = j * 2 ^ (k - l) + 2 ^ (k - l) - 1,
            min_max = combine_min_max
                        (min_max (nodes c' ! node_index (Suc l) (2 * j)))
                        (min_max (nodes c' ! node_index (Suc l) (2 * j + 1)))\<rparr>"
    by blast
  have run: "fill_higher_layers k (Suc l0) c = Inr c'"
    using c1(1) c'(1) by simp
  have unchanged: "nodes c' ! i = nodes c ! i" if "2 ^ Suc l0 - 1 \<le> i" for i
  proof -
    have "2 ^ l0 - 1 \<le> i" using that by simp
    then have "nodes c' ! i = nodes c1 ! i" using c'(6) by blast
    also have "\<dots> = nodes c ! i" using c1(6) that le_eq by simp
    finally show ?thesis .
  qed
  have layer: "nodes c' ! node_index l j =
           \<lparr>lo_idx = j * 2 ^ (k - l), hi_idx = j * 2 ^ (k - l) + 2 ^ (k - l) - 1,
            min_max = combine_min_max
                        (min_max (nodes c' ! node_index (Suc l) (2 * j)))
                        (min_max (nodes c' ! node_index (Suc l) (2 * j + 1)))\<rparr>"
    if lj: "l < Suc l0" "j < 2 ^ l" for l j
  proof (cases "l = l0")
    case False
    then show ?thesis using c'(7) lj by simp
  next
    case True
    let ?i = "node_index l0 j"
    have i_lo: "2 ^ l0 - 1 \<le> ?i" by (simp add: node_index_def)
    have i_hi: "?i < ?le" using node_index_less[of j l0] lj True by simp
    have ji: "?i - (2 ^ l0 - 1) = j" by (simp add: node_index_def)
    have ch: "2 ^ Suc l0 - 1 \<le> node_index (Suc l0) (2 * j)"
         "2 ^ Suc l0 - 1 \<le> node_index (Suc l0) (2 * j + 1)"
      by (simp_all add: node_index_def)
    have "nodes c' ! ?i = nodes c1 ! ?i" using c'(6) i_lo by blast
    also have "\<dots> = \<lparr>lo_idx = j * 2 ^ (k - l0), hi_idx = j * 2 ^ (k - l0) + 2 ^ (k - l0) - 1,
            min_max = combine_min_max (min_max (nodes c ! (2 * ?i + 1)))
                                      (min_max (nodes c ! (2 * ?i + 2)))\<rparr>"
      using c1(7) i_lo i_hi ji by simp
    also have "nodes c ! (2 * ?i + 1) = nodes c' ! node_index (Suc l0) (2 * j)"
      by (simp only: node_index_children unchanged[OF ch(1)])
    also have "nodes c ! (2 * ?i + 2) = nodes c' ! node_index (Suc l0) (2 * j + 1)"
      by (simp only: node_index_children unchanged[OF ch(2)])
    finally show ?thesis using True by simp
  qed
  show ?case
    using run c'(2-5) c1(2-5) unchanged layer by auto
qed

section \<open>\<open>CeilingLog2\<close> is the rounded-up binary logarithm\<close>

lemma CeilingLog2_loop_spec:
  "0 < i \<Longrightarrow>
   \<exists>d. 1 \<le> d \<and> CeilingLog2_loop i k p = (k + int d, p \<and> i = 2 ^ (d - 1))
       \<and> 2 ^ (d - 1) \<le> i \<and> i < 2 ^ d"
proof (induction i k p rule: CeilingLog2_loop.induct)
  case (1 i k p)
  let ?p1 = "if 1 < i \<and> odd i then False else p"
  have unf: "CeilingLog2_loop i k p = CeilingLog2_loop (i div 2) (k + 1) ?p1"
    using "1.prems" by (subst CeilingLog2_loop.simps) simp
  show ?case
  proof (cases "i div 2 = 0")
    case True
    then have i1: "i = 1" using "1.prems" by (simp add: div_eq_0_iff) 
    have "CeilingLog2_loop (i div 2) (k + 1) ?p1 = (k + 1, p)"
      using i1 by (subst CeilingLog2_loop.simps) simp
    then show ?thesis unfolding unf using i1 by (intro exI[of _ 1]) simp
  next
    case False
    then have pos: "0 < i div 2" by simp
    from "1.IH"[OF "1.prems" pos]
    obtain d where d: "1 \<le> d"
      "CeilingLog2_loop (i div 2) (k + 1) ?p1 = (k + 1 + int d, ?p1 \<and> i div 2 = 2 ^ (d - 1))"
      "2 ^ (d - 1) \<le> i div 2" "i div 2 < 2 ^ d"
      by blast
    have gt1: "1 < i" using pos by (simp add: div_greater_zero_iff) 
    have pw: "(2::nat) ^ d = 2 * 2 ^ (d - 1)"
      using d(1) by (cases d) simp_all
    have lo: "2 ^ d \<le> i" using d(3) pw by simp 
    have hi: "i < 2 ^ Suc d" using d(4) by simp 
    have flag: "(?p1 \<and> i div 2 = 2 ^ (d - 1)) \<longleftrightarrow> (p \<and> i = 2 ^ d)"
    proof (cases "odd i")
      case True
      have "even ((2::nat) ^ d)" using d(1) by simp
      then have "i \<noteq> 2 ^ d" using True by metis
      then show ?thesis using True gt1 by simp
    next
      case False
      then have "i = 2 * (i div 2)" by simp
      then have "i div 2 = 2 ^ (d - 1) \<longleftrightarrow> i = 2 ^ d" using pw by auto
      then show ?thesis using False by simp
    qed
    show ?thesis
      unfolding unf d(2) flag using lo hi by (intro exI[of _ "Suc d"]) simp
  qed
qed

lemma CeilingLog2_spec:
  assumes "0 < n"
  shows "0 \<le> CeilingLog2 n" and "n \<le> 2 ^ nat (CeilingLog2 n)"
    and "2 \<le> n \<Longrightarrow> 1 \<le> CeilingLog2 n"
    and "2 \<le> n \<Longrightarrow> 2 ^ (nat (CeilingLog2 n) - 1) < n"
proof -
  from CeilingLog2_loop_spec[OF assms, of 0 True]
  obtain d where d: "1 \<le> d" "CeilingLog2_loop n 0 True = (int d, n = 2 ^ (d - 1))"
    "2 ^ (d - 1) \<le> n" "n < 2 ^ d"
    by auto
  have val: "CeilingLog2 n = (if n = 2 ^ (d - 1) then int d - 1 else int d)"
    by (simp add: CeilingLog2_def d(2))
  show "0 \<le> CeilingLog2 n" using val d(1) by simp
  show "n \<le> 2 ^ nat (CeilingLog2 n)"
    using val d(4) by (auto simp: nat_diff_distrib')
  show "1 \<le> CeilingLog2 n" if "2 \<le> n"
  proof (cases "n = 2 ^ (d - 1)")
    case True
    then have "d - 1 \<noteq> 0" using that by (intro notI) simp
    then show ?thesis using val True by simp
  next
    case False
    then show ?thesis using val d(1) by simp
  qed
  show "2 ^ (nat (CeilingLog2 n) - 1) < n" if "2 \<le> n"
  proof (cases "n = 2 ^ (d - 1)")
    case True
    then have nz: "d - 1 \<noteq> 0" using that by (intro notI) simp
    have "(2::nat) ^ (d - 1 - 1) < 2 ^ (d - 1)" using nz by simp
    then show ?thesis using val True by (simp add: nat_diff_distrib')
  next
    case False
    then show ?thesis using val d(3) by simp
  qed
qed

section \<open>The tree after construction\<close>

lemma FillIntervals_result:
  assumes run: "FillIntervals c = Inr c'"
    and k: "k = nat (CeilingLog2 (length (elems (y_values c))))"
    and len: "length (nodes c) = 2 ^ k - 1"
    and k1: "1 \<le> k"
  shows "x_values c' = x_values c" and "y_values c' = y_values c"
    and "stray (intervals c') = stray (intervals c)"
    and "length (nodes c') = 2 ^ k - 1"
    and "\<And>j. j < 2 ^ (k - 1) \<Longrightarrow>
           2 * j + 1 < length (y_mem c) \<and>
           nodes c' ! node_index (k - 1) j =
             \<lparr>lo_idx = 2 * j, hi_idx = 2 * j + 1,
              min_max = GetMinMax (y_mem c ! (2 * j)) (y_mem c ! (2 * j + 1))\<rparr>"
    and "\<And>l j. l < k - 1 \<Longrightarrow> j < 2 ^ l \<Longrightarrow>
           nodes c' ! node_index l j =
             \<lparr>lo_idx = j * 2 ^ (k - l), hi_idx = j * 2 ^ (k - l) + 2 ^ (k - l) - 1,
              min_max = combine_min_max
                          (min_max (nodes c' ! node_index (Suc l) (2 * j)))
                          (min_max (nodes c' ! node_index (Suc l) (2 * j + 1)))\<rparr>"
proof -
  let ?s = "2 ^ (k - 1) - 1 :: nat"
  let ?e = "2 ^ (k - 1) - 1 + 2 ^ (k - 1) :: nat"
  have w: "(2::nat) ^ (k - (k - 1)) = 2" using k1 by simp
  from run obtain c1 where
    c1: "fill_lowest_layer 2 ?e ?s 0 c = Inr c1" and c2: "fill_higher_layers k (k - 1) c1 = Inr c'"
    unfolding FillIntervals_def Let_def k[symmetric] w by (blast dest: and_then_InrD)
  note low = fill_lowest_layer_result[OF c1]
  have len1: "length (nodes c1) = 2 ^ k - 1" using low len by simp
  have "k - 1 < k" using k1 by simp
  from fill_higher_layers_result[OF len1 this]
  obtain c'' where high: "fill_higher_layers k (k - 1) c1 = Inr c''"
    "x_values c'' = x_values c1" "y_values c'' = y_values c1"
    "stray (intervals c'') = stray (intervals c1)"
    "length (nodes c'') = length (nodes c1)"
    "\<forall>i. 2 ^ (k - 1) - 1 \<le> i \<longrightarrow> nodes c'' ! i = nodes c1 ! i"
    "\<forall>l j. l < k - 1 \<and> j < 2 ^ l \<longrightarrow>
         nodes c'' ! node_index l j =
           \<lparr>lo_idx = j * 2 ^ (k - l), hi_idx = j * 2 ^ (k - l) + 2 ^ (k - l) - 1,
            min_max = combine_min_max
                        (min_max (nodes c'' ! node_index (Suc l) (2 * j)))
                        (min_max (nodes c'' ! node_index (Suc l) (2 * j + 1)))\<rparr>"
    by blast
  have same: "c'' = c'" using high(1) c2 by simp
  show "x_values c' = x_values c" "y_values c' = y_values c"
    "stray (intervals c') = stray (intervals c)" "length (nodes c') = 2 ^ k - 1"
    using high(2-5) low len same by simp_all
  show "2 * j + 1 < length (y_mem c) \<and>
           nodes c' ! node_index (k - 1) j =
             \<lparr>lo_idx = 2 * j, hi_idx = 2 * j + 1,
              min_max = GetMinMax (y_mem c ! (2 * j)) (y_mem c ! (2 * j + 1))\<rparr>"
    if "j < 2 ^ (k - 1)" for j
  proof -
    let ?i = "node_index (k - 1) j"
    have i: "?s \<le> ?i" "?i < ?e" "?i - ?s = j"
      using that by (simp_all add: node_index_def)
    have eq: "nodes c' ! ?i = nodes c1 ! ?i" using high(6) i(1) same by blast
    have "?i < length (nodes c) \<and> 0 + 2 * (?i - ?s) + 1 < length (y_mem c) \<and>
          nodes c1 ! ?i =
            \<lparr>lo_idx = 0 + 2 * (?i - ?s), hi_idx = 0 + 2 * (?i - ?s) + 1,
             min_max = GetMinMax (y_mem c ! (0 + 2 * (?i - ?s)))
                                 (y_mem c ! (0 + 2 * (?i - ?s) + 1))\<rparr>"
      using low i(1,2) by blast
    then show ?thesis unfolding i(3) eq by simp
  qed
  show "nodes c' ! node_index l j =
             \<lparr>lo_idx = j * 2 ^ (k - l), hi_idx = j * 2 ^ (k - l) + 2 ^ (k - l) - 1,
              min_max = combine_min_max
                          (min_max (nodes c' ! node_index (Suc l) (2 * j)))
                          (min_max (nodes c' ! node_index (Suc l) (2 * j + 1)))\<rparr>"
    if "l < k - 1" "j < 2 ^ l" for l j
    using high(7) that same by blast
qed

lemma node_index_cover:
  "i < 2 ^ m - 1 \<Longrightarrow> \<exists>l j. l < m \<and> j < 2 ^ l \<and> i = node_index l j"
proof (induction m)
  case 0
  then show ?case by simp
next
  case (Suc m)
  show ?case
  proof (cases "i < 2 ^ m - 1")
    case True
    with Suc.IH obtain l j where "l < m" "j < 2 ^ l" "i = node_index l j" by blast
    then show ?thesis by (intro exI[of _ l] exI[of _ j]) simp
  next
    case False
    then have "i = node_index m (i - (2 ^ m - 1))" by (simp add: node_index_def)
    moreover have "i - (2 ^ m - 1) < 2 ^ m" using Suc.prems by simp
    ultimately show ?thesis by (intro exI[of _ m] exI[of _ "i - (2 ^ m - 1)"]) simp
  qed
qed

text \<open>What the constructor returns when it returns a curve.\<close>

lemma constructor_result:
  assumes "ExplicitSingleValueCurve2D xs ys si = Inr c"
  defines "k \<equiv> nat (CeilingLog2 (length (elems ys)))"
  shows "x_values c = xs" and "y_values c = ys" and "stray (intervals c) = si"
    and "length xs = length (elems ys)" and "xs \<noteq> []" and "strictly_increasing xs"
    and "length (nodes c) = 2 ^ k - 1" and "k \<le> 30"
    and "length (elems ys) \<le> 2 ^ k"
    and "2 \<le> length (elems ys) \<Longrightarrow> 1 \<le> k \<and> 2 ^ (k - 1) < length (elems ys)"
    and "2 \<le> length (elems ys) \<Longrightarrow>
           FillIntervals \<lparr>x_values = xs, y_values = ys,
              intervals = \<lparr>elems = replicate (2 ^ k - 1) \<lparr>lo_idx = 0, hi_idx = 0, min_max = None\<rparr>,
                           stray = si\<rparr>\<rparr> = Inr c"
proof -
  let ?c0 = "\<lparr>x_values = xs, y_values = ys,
              intervals = \<lparr>elems = replicate (2 ^ k - 1) \<lparr>lo_idx = 0, hi_idx = 0, min_max = None\<rparr>,
                           stray = si\<rparr>\<rparr>"
  from assms(1) have pre: "length xs = length (elems ys)" "xs \<noteq> []" "strictly_increasing xs"
    "\<not> (CeilingLog2 (length (elems ys)) < 0 \<or> 30 < CeilingLog2 (length (elems ys)))"
    by (auto simp: ExplicitSingleValueCurve2D_def Let_def split: if_splits)
  then have res: "(if 1 < length (elems ys) then FillIntervals ?c0 else Inr ?c0) = Inr c"
    using assms(1) by (auto simp: ExplicitSingleValueCurve2D_def Let_def k_def split: if_splits)
  have npos: "0 < length (elems ys)" using pre(1,2) by auto
  show "length xs = length (elems ys)" "xs \<noteq> []" "strictly_increasing xs" by (fact pre)+
  show "k \<le> 30" using pre(4) unfolding k_def by linarith
  show "length (elems ys) \<le> 2 ^ k" using CeilingLog2_spec(2)[OF npos] by (simp add: k_def)
  show k1: "1 \<le> k \<and> 2 ^ (k - 1) < length (elems ys)" if "2 \<le> length (elems ys)"
    using CeilingLog2_spec(3,4)[OF npos that] by (simp add: k_def)
  show fill: "FillIntervals ?c0 = Inr c" if "2 \<le> length (elems ys)"
    using res that by simp
  have "x_values c = xs \<and> y_values c = ys \<and> stray (intervals c) = si
        \<and> length (nodes c) = 2 ^ k - 1"
  proof (cases "2 \<le> length (elems ys)")
    case True
    have kk: "k = nat (CeilingLog2 (length (elems (y_values ?c0))))" by (simp add: k_def)
    have ll: "length (nodes ?c0) = 2 ^ k - 1" by simp
    from FillIntervals_result(1-4)[OF fill[OF True] kk ll] k1[OF True]
    show ?thesis by simp
  next
    case False
    then have n1: "length (elems ys) = 1" using npos by linarith
    then have "k = 0" by (simp add: k_def CeilingLog2_def CeilingLog2_loop.simps)
    then show ?thesis using res n1 by auto
  qed
  then show "x_values c = xs" "y_values c = ys" "stray (intervals c) = si"
    "length (nodes c) = 2 ^ k - 1" by simp_all
qed

lemma constructor_valid:
  "ExplicitSingleValueCurve2D xs ys si = Inr c \<Longrightarrow> valid_curve c"
  using constructor_result(1,2,4,5,6)[of xs ys si c] by (simp add: valid_curve_def)

section \<open>When the constructor returns\<close>

lemma fill_lowest_layer_returns:
  assumes "layer_end \<le> length (nodes c)" and "s + 2 * (layer_end - i) \<le> length (y_mem c)"
  shows "\<exists>c'. fill_lowest_layer 2 layer_end i s c = Inr c'"
  using assms
proof (induction "layer_end - i" arbitrary: i s c)
  case 0
  then have "\<not> i < layer_end" by simp
  then show ?case by (subst fill_lowest_layer.simps) simp
next
  case (Suc d)
  then have lt: "i < layer_end" by simp
  let ?v = "\<lparr>lo_idx = s, hi_idx = s + 1,
             min_max = GetMinMax (y_mem c ! s) (y_mem c ! (s + 1))\<rparr>"
  let ?c1 = "c\<lparr>intervals := (intervals c)\<lparr>elems := (nodes c)[i := ?v]\<rparr>\<rparr>"
  have mem: "s + 1 < length (y_mem c)" using Suc.prems(2) lt by simp
  then have y: "y_at c s = Inr (y_mem c ! s)" "y_at c (s + 1) = Inr (y_mem c ! (s + 1))"
    by (simp_all add: y_at_Inr_iff)
  have ilen: "i < length (nodes c)" using lt Suc.prems(1) by simp
  have step: "fill_lowest_layer 2 layer_end i s c = fill_lowest_layer 2 layer_end (i + 1) (s + 2) ?c1"
    using lt y ilen by (subst fill_lowest_layer.simps) (simp add: Let_def set_interval_Inr)
  have d: "d = layer_end - (i + 1)" using Suc.hyps(2) by simp
  have pre: "layer_end \<le> length (nodes ?c1)" "s + 2 + 2 * (layer_end - (i + 1)) \<le> length (y_mem ?c1)"
    using Suc.prems lt by simp_all
  from Suc.hyps(1)[OF d pre] show ?case unfolding step .
qed

lemma FillIntervals_returns:
  assumes k: "k = nat (CeilingLog2 (length (elems (y_values c))))"
    and len: "length (nodes c) = 2 ^ k - 1"
    and k1: "1 \<le> k"
    and mem: "2 ^ k \<le> length (y_mem c)"
  shows "\<exists>c'. FillIntervals c = Inr c'"
proof -
  let ?s = "2 ^ (k - 1) - 1 :: nat"
  let ?e = "2 ^ (k - 1) - 1 + 2 ^ (k - 1) :: nat"
  have p: "(2::nat) ^ k = 2 * 2 ^ (k - 1)" using k1 by (cases k) simp_all
  have w: "(2::nat) ^ (k - (k - 1)) = 2" using k1 by simp
  have e: "?e = 2 ^ k - 1" "?e - ?s = 2 ^ (k - 1)" using p by simp_all
  have "?e \<le> length (nodes c)" using len e by simp
  moreover have "0 + 2 * (?e - ?s) \<le> length (y_mem c)" unfolding e(2) using mem p by simp
  ultimately obtain c1 where c1: "fill_lowest_layer 2 ?e ?s 0 c = Inr c1"
    using fill_lowest_layer_returns by blast
  have len1: "length (nodes c1) = 2 ^ k - 1"
    using fill_lowest_layer_result[OF c1] len by simp
  have "k - 1 < k" using k1 by simp
  from fill_higher_layers_result[OF len1 this]
  obtain c' where "fill_higher_layers k (k - 1) c1 = Inr c'" by blast
  then show ?thesis
    unfolding FillIntervals_def Let_def k[symmetric] w c1 and_then_Inr by blast
qed

text \<open>
  The constructor returns a curve when its assertions hold, the size is at most \<open>2 ^ 30\<close>
  and the memory that the y subscript can read has \<open>2 ^ k\<close> cells.
\<close>

lemma constructor_returns:
  assumes "length xs = length (elems ys)" and "xs \<noteq> []" and "strictly_increasing xs"
    and "length (elems ys) \<le> 2 ^ 30"
    and "2 \<le> length (elems ys) \<Longrightarrow>
           2 ^ nat (CeilingLog2 (length (elems ys))) \<le> length (elems ys @ stray ys)"
  shows "\<exists>c. ExplicitSingleValueCurve2D xs ys si = Inr c"
proof -
  define k where "k = nat (CeilingLog2 (length (elems ys)))"
  have npos: "0 < length (elems ys)" using assms(1,2) by auto
  note S = CeilingLog2_spec[OF npos]
  have k30: "k \<le> 30"
  proof (cases "2 \<le> length (elems ys)")
    case True
    have "(2::nat) ^ (k - 1) < 2 ^ 30" using S(4)[OF True] assms(4) unfolding k_def by simp
    then have "k - 1 < 30" by (simp only: power_strict_increasing_iff) 
    then show ?thesis by simp
  next
    case False
    then have "length (elems ys) = 1" using npos by linarith
    then show ?thesis by (simp add: k_def CeilingLog2_def CeilingLog2_loop.simps)
  qed
  have guard: "\<not> (CeilingLog2 (length (elems ys)) < 0 \<or> 30 < CeilingLog2 (length (elems ys)))"
    using S(1) k30 unfolding k_def by linarith
  let ?c0 = "\<lparr>x_values = xs, y_values = ys,
              intervals = \<lparr>elems = replicate (2 ^ k - 1) \<lparr>lo_idx = 0, hi_idx = 0, min_max = None\<rparr>,
                           stray = si\<rparr>\<rparr>"
  have eq: "ExplicitSingleValueCurve2D xs ys si
            = (if 1 < length (elems ys) then FillIntervals ?c0 else Inr ?c0)"
    using assms(1,2,3) guard by (simp add: ExplicitSingleValueCurve2D_def Let_def k_def)
  show ?thesis
  proof (cases "2 \<le> length (elems ys)")
    case True
    have k1: "1 \<le> k" using S(3)[OF True] unfolding k_def by simp
    have "\<exists>c'. FillIntervals ?c0 = Inr c'"
      using assms(5)[OF True] k1 by (intro FillIntervals_returns[where k=k]) (simp_all add: k_def)
    then show ?thesis unfolding eq using True by simp
  next
    case False
    then show ?thesis unfolding eq by simp
  qed
qed

lemma CeilingLog2_power: "CeilingLog2 (2 ^ m) = int m"
proof (cases m)
  case 0
  then show ?thesis by (simp add: CeilingLog2_def CeilingLog2_loop.simps)
next
  case (Suc m')
  let ?n = "2 ^ m :: nat"
  have n2: "2 \<le> ?n" using Suc by simp
  note S = CeilingLog2_spec[of ?n, simplified]
  define k where "k = nat (CeilingLog2 ?n)"
  have "?n \<le> 2 ^ k" using S(2) by (simp add: k_def)
  then have a: "m \<le> k" by simp
  have "(2::nat) ^ (k - 1) < 2 ^ m" using S(4) n2 by (simp add: k_def)
  then have "k - 1 < m" by (simp only: power_strict_increasing_iff)
  then have "k = m" using a by simp
  then show ?thesis using S(1) unfolding k_def by simp
qed

section \<open>The linear scan\<close>

lemma set_present_values:
  "set (present_values ys lo hi) = {v. \<exists>i. lo \<le> i \<and> i \<le> hi \<and> ys ! i = Some v}"
  by (auto simp: present_values_def map_filter_def image_iff) force

lemma present_values_append:
  "lo \<le> Suc m \<Longrightarrow> m \<le> hi \<Longrightarrow>
   present_values ys lo hi = present_values ys lo m @ present_values ys (Suc m) hi"
proof -
  assume a: "lo \<le> Suc m" "m \<le> hi"
  have "[lo..<Suc hi] = [lo..<Suc m] @ [Suc m..<Suc hi]"
    using a by (metis Suc_le_mono le_Suc_ex upt_add_eq_append)
  then show ?thesis by (simp add: present_values_def map_filter_def)
qed

lemma linear_scan_single:
  "linear_scan ys i i = (case ys ! i of Some v \<Rightarrow> Some (v, v) | None \<Rightarrow> None)"
  by (simp add: linear_scan_def Let_def present_values_def map_filter_def split: option.splits)

lemma linear_scan_split:
  assumes "lo \<le> m" and "m < hi"
  shows "linear_scan ys lo hi
         = combine_min_max (linear_scan ys lo m) (linear_scan ys (Suc m) hi)"
proof -
  let ?a = "present_values ys lo m" and ?b = "present_values ys (Suc m) hi"
  have app: "present_values ys lo hi = ?a @ ?b"
    using assms by (intro present_values_append) simp_all
  show ?thesis
  proof (cases "?a = []")
    case True
    then show ?thesis
      by (simp add: linear_scan_def Let_def app combine_min_max_def split: option.splits)
  next
    case a: False
    show ?thesis
    proof (cases "?b = []")
      case True
      then show ?thesis using a
        by (simp add: linear_scan_def Let_def app combine_min_max_def)
    next
      case b: False
      have "Min (set ?a \<union> set ?b) = min (Min (set ?a)) (Min (set ?b))"
        using a b by (intro Min_Un) simp_all
      moreover have "Max (set ?a \<union> set ?b) = max (Max (set ?a)) (Max (set ?b))"
        using a b by (intro Max_Un) simp_all
      ultimately show ?thesis using a b
        by (simp add: linear_scan_def Let_def app combine_min_max_def)
    qed
  qed
qed

lemma linear_scan_pair:
  "linear_scan ys i (Suc i) = GetMinMax (ys ! i) (ys ! Suc i)"
proof -
  have "linear_scan ys i (Suc i)
        = combine_min_max (linear_scan ys i i) (linear_scan ys (Suc i) (Suc i))"
    by (intro linear_scan_split) simp_all
  then show ?thesis
    by (simp add: linear_scan_single GetMinMax_def combine_min_max_def split: option.splits)
qed

lemma linear_scan_None_iff:
  "linear_scan ys lo hi = None \<longleftrightarrow> (\<forall>i. lo \<le> i \<and> i \<le> hi \<longrightarrow> ys ! i = None)"
proof -
  have "present_values ys lo hi = [] \<longleftrightarrow> set (present_values ys lo hi) = {}" by simp
  also have "\<dots> \<longleftrightarrow> (\<forall>i. lo \<le> i \<and> i \<le> hi \<longrightarrow> ys ! i = None)"
    unfolding set_present_values
    by (simp add: set_eq_iff) (metis not_Some_eq option.distinct(1))
  finally show ?thesis by (simp add: linear_scan_def Let_def)
qed

lemma linear_scan_Some:
  "linear_scan ys lo hi = Some (mn, mx) \<Longrightarrow>
   mn = Min {v. \<exists>i. lo \<le> i \<and> i \<le> hi \<and> ys ! i = Some v} \<and>
   mx = Max {v. \<exists>i. lo \<le> i \<and> i \<le> hi \<and> ys ! i = Some v}"
  by (auto simp: linear_scan_def Let_def set_present_values[symmetric] split: if_splits)

lemma map_filter_cong_set:
  "(\<And>x. x \<in> set xs \<Longrightarrow> f x = g x) \<Longrightarrow> List.map_filter f xs = List.map_filter g xs"
  by (induction xs) (auto simp: map_filter_simps split: option.splits)

lemma linear_scan_prefix:
  "hi < length ys \<Longrightarrow> linear_scan (ys @ zs) lo hi = linear_scan ys lo hi"
proof -
  assume "hi < length ys"
  then have "\<And>i. i \<in> set [lo..<Suc hi] \<Longrightarrow> (ys @ zs) ! i = ys ! i"
    by (auto simp: nth_append)
  then have "present_values (ys @ zs) lo hi = present_values ys lo hi"
    unfolding present_values_def by (rule map_filter_cong_set)
  then show ?thesis by (simp add: linear_scan_def Let_def)
qed

lemma FillIntervals_tree_filled:
  assumes run: "FillIntervals c = Inr c'"
    and k: "k = nat (CeilingLog2 (length (elems (y_values c))))"
    and len: "length (nodes c) = 2 ^ k - 1"
    and k1: "1 \<le> k"
  shows "tree_filled k (y_mem c) (nodes c')"
proof -
  note R = FillIntervals_result[OF run k len k1]
  let ?mem = "y_mem c"
  have node: "nodes c' ! node_index l j =
          \<lparr>lo_idx = j * 2 ^ Suc d, hi_idx = j * 2 ^ Suc d + 2 ^ Suc d - 1,
           min_max = linear_scan ?mem (j * 2 ^ Suc d) (j * 2 ^ Suc d + 2 ^ Suc d - 1)\<rparr>"
    if "l + d = k - 1" "j < 2 ^ l" for d l j
    using that
  proof (induction d arbitrary: l j)
    case 0
    then have l: "l = k - 1" by simp
    have "nodes c' ! node_index (k - 1) j =
             \<lparr>lo_idx = 2 * j, hi_idx = 2 * j + 1,
              min_max = GetMinMax (?mem ! (2 * j)) (?mem ! (2 * j + 1))\<rparr>"
      using R(5)[of j] 0 l by simp
    then show ?case
      unfolding l by (simp add: linear_scan_pair mult.commute)
  next
    case (Suc d)
    have l: "l < k - 1" "Suc l + d = k - 1" using Suc.prems(1) by simp_all
    have kl: "k - l = Suc (Suc d)" using Suc.prems(1) k1 by simp
    define w :: nat where "w = 2 ^ Suc d"
    have wpos: "0 < w" by (simp add: w_def)
    have j2: "2 * j < 2 ^ Suc l" "2 * j + 1 < 2 ^ Suc l"
      using Suc.prems(2) by simp_all
    note c1 = Suc.IH[OF l(2) j2(1), folded w_def] and c2 = Suc.IH[OF l(2) j2(2), folded w_def]
    have klw: "(2::nat) ^ (k - l) = 2 * w" unfolding kl w_def by simp
    have nd: "nodes c' ! node_index l j =
             \<lparr>lo_idx = j * (2 * w), hi_idx = j * (2 * w) + 2 * w - 1,
              min_max = combine_min_max
                          (min_max (nodes c' ! node_index (Suc l) (2 * j)))
                          (min_max (nodes c' ! node_index (Suc l) (2 * j + 1)))\<rparr>"
      using R(6)[OF l(1) Suc.prems(2)] unfolding klw .
    let ?a = "j * (2 * w)"
    have e1: "2 * j * w = ?a" by simp
    have e3: "(2 * j + 1) * w = Suc (?a + w - 1)" using wpos by (simp add: algebra_simps)
    have e4: "(2 * j + 1) * w + w - 1 = ?a + 2 * w - 1" by (simp add: algebra_simps)
    have "?a \<le> ?a + w - 1" "?a + w - 1 < ?a + 2 * w - 1" using wpos by simp_all
    then have split: "linear_scan ?mem ?a (?a + 2 * w - 1)
          = combine_min_max (linear_scan ?mem ?a (?a + w - 1))
                            (linear_scan ?mem (Suc (?a + w - 1)) (?a + 2 * w - 1))"
      by (rule linear_scan_split)
    have m1: "min_max (nodes c' ! node_index (Suc l) (2 * j)) = linear_scan ?mem ?a (?a + w - 1)"
      unfolding c1 e1 by simp
    have "min_max (nodes c' ! node_index (Suc l) (2 * j + 1))
          = linear_scan ?mem ((2 * j + 1) * w) ((2 * j + 1) * w + w - 1)"
      unfolding c2 by simp
    also have "\<dots> = linear_scan ?mem (Suc (?a + w - 1)) (?a + 2 * w - 1)"
      by (rule arg_cong2[OF e3 e4])
    finally have m2: "min_max (nodes c' ! node_index (Suc l) (2 * j + 1))
          = linear_scan ?mem (Suc (?a + w - 1)) (?a + 2 * w - 1)" .
    have "min_max (nodes c' ! node_index l j) = linear_scan ?mem ?a (?a + 2 * w - 1)"
      unfolding nd m1 m2 split by simp
    moreover have "(2::nat) ^ Suc (Suc d) = 2 * w" unfolding w_def by simp
    ultimately show ?case
      using nd by simp
  qed
  have tree: "nodes c' ! node_index l j =
          \<lparr>lo_idx = j * 2 ^ (k - l), hi_idx = j * 2 ^ (k - l) + 2 ^ (k - l) - 1,
           min_max = linear_scan ?mem (j * 2 ^ (k - l)) (j * 2 ^ (k - l) + 2 ^ (k - l) - 1)\<rparr>"
    if "l < k" "j < 2 ^ l" for l j
  proof -
    have "l + (k - 1 - l) = k - 1" "Suc (k - 1 - l) = k - l" using that(1) by simp_all
    then show ?thesis using node[of l "k - 1 - l" j] that(2) by simp
  qed
  have "2 * (2 ^ (k - 1) - 1) + 1 < length ?mem"
    using R(5)[of "2 ^ (k - 1) - 1"] by simp
  moreover have "(2::nat) ^ k = 2 * 2 ^ (k - 1)" using k1 by (cases k) simp_all
  ultimately have "2 ^ k \<le> length ?mem" by simp
  then show ?thesis
    unfolding tree_filled_def using R(4) tree by blast
qed

section \<open>The index query on a filled tree\<close>

lemma query_in_tree:
  assumes T: "tree_filled k (y_mem c) (nodes c)"
    and "l + d = k - 1" and "l < k" and "j < 2 ^ l"
    and "j * 2 ^ Suc d \<le> lo" and "lo \<le> hi" and "hi \<le> j * 2 ^ Suc d + 2 ^ Suc d - 1"
  shows "GetMinMaxOverIndexInterval c lo hi (node_index l j) = Inr (linear_scan (y_mem c) lo hi)"
proof -
  have len: "length (nodes c) = 2 ^ k - 1" and mem: "2 ^ k \<le> length (y_mem c)"
    using T unfolding tree_filled_def by simp_all
  have tree: "nodes c ! node_index l j =
          \<lparr>lo_idx = j * 2 ^ (k - l), hi_idx = j * 2 ^ (k - l) + 2 ^ (k - l) - 1,
           min_max = linear_scan (y_mem c) (j * 2 ^ (k - l)) (j * 2 ^ (k - l) + 2 ^ (k - l) - 1)\<rparr>"
    if "l < k" "j < 2 ^ l" for l j
    using T that unfolding tree_filled_def by blast
  show ?thesis
  using assms(2-)
proof (induction d arbitrary: l j lo hi)
  case 0
  let ?mem = "y_mem c"
  let ?idx = "node_index l j"
  have kl: "k - l = Suc 0" "k = Suc l" using 0 by simp_all
  have node: "nodes c ! ?idx =
      \<lparr>lo_idx = j * 2, hi_idx = j * 2 + 1, min_max = linear_scan ?mem (j * 2) (j * 2 + 1)\<rparr>"
    using tree[OF "0.prems"(2,3)] unfolding kl(1) by simp
  have idx: "?idx < length (nodes c)"
    using node_index_less[OF "0.prems"(3)] unfolding len kl(2) .
  have rd: "interval_at c ?idx = Inr (nodes c ! ?idx)"
    using idx by (rule interval_at_nodes)
  have "j * 2 + 1 < 2 ^ k" using "0.prems"(3) unfolding kl(2) by simp
  then have inmem: "lo < length ?mem" "hi < length ?mem"
    using mem "0.prems"(5,6) by simp_all
  show ?case
  proof (cases "lo = j * 2 \<and> hi = j * 2 + 1")
    case True
    then show ?thesis
      by (subst GetMinMaxOverIndexInterval.simps) (simp add: rd node)
  next
    case False
    then have eq: "lo = hi" using "0.prems"(4,5,6) by simp linarith
    have y: "y_at c hi = Inr (?mem ! hi)" using inmem by (simp add: y_at_Inr_iff)
    show ?thesis
      using False unfolding eq
      by (subst GetMinMaxOverIndexInterval.simps)
         (auto simp: rd node y linear_scan_single split: option.splits)
  qed
next
  case (Suc d)
  let ?mem = "y_mem c"
  let ?idx = "node_index l j"
  define w :: nat where "w = 2 ^ Suc d"
  have wpos: "0 < w" by (simp add: w_def)
  have W: "(2::nat) ^ Suc (Suc d) = 2 * w" by (simp add: w_def)
  define a where "a = j * (2 * w)"
  have kl: "k - l = Suc (Suc d)" "k - Suc l = Suc d" "Suc l < k" "Suc l + d = k - 1"
    using Suc.prems(1,2) by simp_all
  have bounds: "a \<le> lo" "lo \<le> hi" "hi \<le> a + 2 * w - 1"
    using Suc.prems(4,5,6) unfolding W a_def by simp_all
  have j2: "2 * j < 2 ^ Suc l" "2 * j + 1 < 2 ^ Suc l" using Suc.prems(3) by simp_all
  have node: "nodes c ! ?idx =
      \<lparr>lo_idx = a, hi_idx = a + 2 * w - 1, min_max = linear_scan ?mem a (a + 2 * w - 1)\<rparr>"
    using tree[OF Suc.prems(2,3)] unfolding kl(1) W a_def .
  have ch1: "nodes c ! (2 * ?idx + 1) =
      \<lparr>lo_idx = a, hi_idx = a + w - 1, min_max = linear_scan ?mem a (a + w - 1)\<rparr>"
  proof -
    have "nodes c ! node_index (Suc l) (2 * j) =
      \<lparr>lo_idx = 2 * j * w, hi_idx = 2 * j * w + w - 1,
       min_max = linear_scan ?mem (2 * j * w) (2 * j * w + w - 1)\<rparr>"
      using tree[OF kl(3) j2(1)] unfolding kl(2) w_def .
    moreover have "2 * j * w = a" by (simp add: a_def)
    ultimately show ?thesis by (simp only: node_index_children)
  qed
  have e3: "(2 * j + 1) * w = a + w" by (simp add: a_def algebra_simps)
  have e4: "(2 * j + 1) * w + w - 1 = a + 2 * w - 1" by (simp add: a_def algebra_simps)
  have ch2: "nodes c ! (2 * ?idx + 2) =
      \<lparr>lo_idx = a + w, hi_idx = a + 2 * w - 1, min_max = linear_scan ?mem (a + w) (a + 2 * w - 1)\<rparr>"
  proof -
    have "nodes c ! node_index (Suc l) (2 * j + 1) =
      \<lparr>lo_idx = (2 * j + 1) * w, hi_idx = (2 * j + 1) * w + w - 1,
       min_max = linear_scan ?mem ((2 * j + 1) * w) ((2 * j + 1) * w + w - 1)\<rparr>"
      using tree[OF kl(3) j2(2)] unfolding kl(2) w_def .
    then show ?thesis unfolding e4 unfolding e3 by (simp only: node_index_children)
  qed
  have "(2::nat) ^ Suc (Suc l) \<le> 2 ^ k" using kl(3) by (intro power_increasing) simp_all
  moreover have "node_index (Suc l) (2 * j + 1) < 2 ^ Suc (Suc l) - 1"
    using j2(2) by (rule node_index_less)
  ultimately have "2 * ?idx + 2 < length (nodes c)"
    unfolding len node_index_children by simp
  then have rd: "interval_at c ?idx = Inr (nodes c ! ?idx)"
    "interval_at c (2 * ?idx + 1) = Inr (nodes c ! (2 * ?idx + 1))"
    "interval_at c (2 * ?idx + 2) = Inr (nodes c ! (2 * ?idx + 2))"
    by (simp_all add: interval_at_nodes)
  have "k = l + Suc (Suc d)" using kl(1) Suc.prems(2) by simp
  then have "(2::nat) ^ k = 2 ^ l * (2 * w)"
    unfolding W[symmetric] by (simp only: power_add)
  moreover have "Suc j * (2 * w) \<le> 2 ^ l * (2 * w)"
    using Suc.prems(3) by (intro mult_le_mono1) simp
  ultimately have "a + 2 * w \<le> 2 ^ k" by (simp add: a_def)
  then have inmem: "hi < length ?mem"
    using mem bounds wpos by simp
  have S: "2 * ?idx + 1 = Suc (2 * ?idx)" "2 * ?idx + 2 = Suc (Suc (2 * ?idx))" by simp_all
  note rds = rd[unfolded S] node ch1[unfolded S] ch2[unfolded S]
  show ?case
  proof (cases "a = lo \<and> a + 2 * w - 1 = hi")
    case True
    then show ?thesis
      by (subst GetMinMaxOverIndexInterval.simps) (auto simp: rd node)
  next
    case notexact: False
    show ?thesis
    proof (cases "lo = hi")
      case True
      have y: "y_at c hi = Inr (?mem ! hi)" using inmem by (simp add: y_at_Inr_iff)
      show ?thesis
        using notexact unfolding True
        by (subst GetMinMaxOverIndexInterval.simps)
           (auto simp: rd node y linear_scan_single split: option.splits)
    next
      case False
      then have lt: "lo < hi" using bounds by simp
      have q1: "GetMinMaxOverIndexInterval c lo' hi' (2 * ?idx + 1) = Inr (linear_scan ?mem lo' hi')"
        if "a \<le> lo'" "lo' \<le> hi'" "hi' \<le> a + w - 1" for lo' hi'
      proof -
        have "2 * j * 2 ^ Suc d \<le> lo'" "hi' \<le> 2 * j * 2 ^ Suc d + 2 ^ Suc d - 1"
          using that unfolding a_def w_def by (simp_all add: algebra_simps)
        from Suc.IH[OF kl(4) kl(3) j2(1) this(1) that(2) this(2)]
        show ?thesis by (simp only: node_index_children)
      qed
      have q2: "GetMinMaxOverIndexInterval c lo' hi' (2 * ?idx + 2) = Inr (linear_scan ?mem lo' hi')"
        if "a + w \<le> lo'" "lo' \<le> hi'" "hi' \<le> a + 2 * w - 1" for lo' hi'
      proof -
        have "(2 * j + 1) * 2 ^ Suc d \<le> lo'" "hi' \<le> (2 * j + 1) * 2 ^ Suc d + 2 ^ Suc d - 1"
          using that e3 e4 unfolding w_def by simp_all
        from Suc.IH[OF kl(4) kl(3) j2(2) this(1) that(2) this(2)]
        show ?thesis by (simp only: node_index_children)
      qed
      consider (left) "hi \<le> a + w - 1" | (right) "a + w \<le> lo"
        | (both) "lo \<le> a + w - 1" "a + w \<le> hi"
        using wpos by linarith
      then show ?thesis
      proof cases
        case left
        then show ?thesis
          using notexact lt bounds q1[OF bounds(1,2) left, unfolded S]
          by (subst GetMinMaxOverIndexInterval.simps) (auto simp: rds Let_def)
      next
        case right
        have "\<not> hi \<le> a + w - 1" using right lt wpos by simp
        then show ?thesis
          using notexact lt bounds right q2[OF right bounds(2,3), unfolded S]
          by (subst GetMinMaxOverIndexInterval.simps) (auto simp: rds Let_def)
      next
        case both
        have n1: "\<not> hi \<le> a + w - 1" and n2: "\<not> a + w \<le> lo" using both wpos by simp_all
        have p1: "GetMinMaxOverIndexInterval c lo (a + w - 1) (2 * ?idx + 1)
                  = Inr (linear_scan ?mem lo (a + w - 1))"
          using bounds(1) both(1) by (intro q1) simp_all
        have p2: "GetMinMaxOverIndexInterval c (a + w) hi (2 * ?idx + 2)
                  = Inr (linear_scan ?mem (a + w) hi)"
          using bounds(3) both(2) by (intro q2) simp_all
        have "lo \<le> a + w - 1" "a + w - 1 < hi" using both wpos by simp_all
        then have "linear_scan ?mem lo hi
              = combine_min_max (linear_scan ?mem lo (a + w - 1))
                                (linear_scan ?mem (Suc (a + w - 1)) hi)"
          by (rule linear_scan_split)
        moreover have "Suc (a + w - 1) = a + w" using wpos by simp
        ultimately have sp: "linear_scan ?mem lo hi
              = combine_min_max (linear_scan ?mem lo (a + w - 1)) (linear_scan ?mem (a + w) hi)"
          by simp
        show ?thesis
          using notexact lt n1 n2 p1[unfolded S] p2[unfolded S]
          by (subst GetMinMaxOverIndexInterval.simps) (auto simp: rds Let_def sp)
      qed
    qed
  qed
qed
qed

text \<open>
  For two or more samples the index query returns the linear scan of the y values,
  whenever the constructor returns a curve, whatever lies behind the arrays.
\<close>

lemma index_query_correct:
  assumes c: "ExplicitSingleValueCurve2D xs ys si = Inr c"
    and n: "2 \<le> length (elems ys)" and "lo \<le> hi" and "hi < length (elems ys)"
  shows "GetMinMaxOverIndexInterval c lo hi 0 = Inr (linear_scan (elems ys) lo hi)"
proof -
  define k where "k = nat (CeilingLog2 (length (elems ys)))"
  let ?c0 = "\<lparr>x_values = xs, y_values = ys,
              intervals = \<lparr>elems = replicate (2 ^ k - 1) \<lparr>lo_idx = 0, hi_idx = 0, min_max = None\<rparr>,
                           stray = si\<rparr>\<rparr>"
  note R = constructor_result[OF c, folded k_def]
  have k1: "1 \<le> k" using R(10)[OF n] by simp
  have run: "FillIntervals ?c0 = Inr c" using R(11)[OF n] .
  have "tree_filled k (y_mem ?c0) (nodes c)"
    by (rule FillIntervals_tree_filled[OF run _ _ k1]) (simp_all add: k_def)
  then have T: "tree_filled k (y_mem c) (nodes c)" using R(2) by simp
  have "hi < 2 ^ k" using assms(4) R(9) by simp
  then have hi: "hi \<le> 0 * 2 ^ Suc (k - 1) + 2 ^ Suc (k - 1) - 1" using k1 by simp
  have "GetMinMaxOverIndexInterval c lo hi (node_index 0 0) = Inr (linear_scan (y_mem c) lo hi)"
    using k1 by (intro query_in_tree[OF T _ _ _ _ assms(3) hi]) simp_all
  moreover have "linear_scan (y_mem c) lo hi = linear_scan (elems ys) lo hi"
    unfolding R(2) using assms(4) by (rule linear_scan_prefix)
  ultimately show ?thesis by (simp add: node_index_def)
qed

lemma constructor_without_stray:
  assumes "ExplicitSingleValueCurve2D xs \<lparr>elems = ys, stray = []\<rparr> si = Inr c"
    and n: "2 \<le> length ys"
  shows "length ys = 2 ^ nat (CeilingLog2 (length ys))"
proof -
  define k where "k = nat (CeilingLog2 (length ys))"
  let ?c0 = "\<lparr>x_values = xs, y_values = \<lparr>elems = ys, stray = []\<rparr>,
              intervals = \<lparr>elems = replicate (2 ^ k - 1) \<lparr>lo_idx = 0, hi_idx = 0, min_max = None\<rparr>,
                           stray = si\<rparr>\<rparr>"
  note R = constructor_result[OF assms(1), simplified, folded k_def]
  have k1: "1 \<le> k" using R(10) n by simp
  have run: "FillIntervals ?c0 = Inr c" using R(11) n by simp
  have "tree_filled k (y_mem ?c0) (nodes c)"
    by (rule FillIntervals_tree_filled[OF run _ _ k1]) (simp_all add: k_def)
  then have "2 ^ k \<le> length ys" unfolding tree_filled_def by simp
  then show ?thesis using R(9) by (simp add: k_def)
qed

section \<open>The binary searches and the two interpolations\<close>

lemma takeWhile_holds: "i < length (takeWhile P xs) \<Longrightarrow> P (xs ! i)"
  by (metis nth_mem set_takeWhileD takeWhile_nth)

lemma lower_bound_le: "lower_bound xs v \<le> length xs"
  by (simp add: lower_bound_def length_takeWhile_le)

lemma upper_bound_le: "upper_bound xs v \<le> length xs"
  by (simp add: upper_bound_def length_takeWhile_le)

lemma lower_bound_before: "i < lower_bound xs v \<Longrightarrow> xs ! i < v"
  unfolding lower_bound_def by (rule takeWhile_holds)

lemma lower_bound_at: "lower_bound xs v < length xs \<Longrightarrow> v \<le> xs ! lower_bound xs v"
  unfolding lower_bound_def using nth_length_takeWhile[of "\<lambda>x. x < v" xs] by simp

lemma upper_bound_before: "i < upper_bound xs v \<Longrightarrow> xs ! i \<le> v"
  unfolding upper_bound_def using takeWhile_holds[of i "\<lambda>x. \<not> v < x" xs] by simp

lemma upper_bound_at: "upper_bound xs v < length xs \<Longrightarrow> v < xs ! upper_bound xs v"
  unfolding upper_bound_def using nth_length_takeWhile[of "\<lambda>x. \<not> v < x" xs] by simp

lemma lower_le_upper: "xmin \<le> xmax \<Longrightarrow> lower_bound xs xmin \<le> upper_bound xs xmax"
  unfolding upper_bound_def
proof (rule length_takeWhile_less_P_nth)
  fix i assume "xmin \<le> xmax" "i < lower_bound xs xmin"
  then show "\<not> xmax < xs ! i" using lower_bound_before[of i xs xmin] by simp
qed (rule lower_bound_le)

lemma upper_le_lower: "xmax < xmin \<Longrightarrow> upper_bound xs xmax \<le> lower_bound xs xmin"
  unfolding lower_bound_def
proof (rule length_takeWhile_less_P_nth)
  fix i assume "xmax < xmin" "i < upper_bound xs xmax"
  then show "xs ! i < xmin" using upper_bound_before[of i xs xmax] by simp
qed (rule upper_bound_le)

text \<open>The two interpolations read only samples that exist.\<close>

lemma lo_interp_value:
  assumes "lo < length (x_values c)" and "length (x_values c) = length (elems (y_values c))"
  shows "lo_interp c xmin lo =
     Inr (if x_values c ! lo > xmin \<and> lo > 0 \<and> x_values c ! (lo - 1) \<noteq> x_values c ! lo
          then (case (elems (y_values c) ! lo, elems (y_values c) ! (lo - 1)) of
                  (Some v_lo, Some v_prev) \<Rightarrow>
                    Some (v_prev + (xmin - x_values c ! (lo - 1))
                                   / (x_values c ! lo - x_values c ! (lo - 1)) * (v_lo - v_prev))
                | _ \<Rightarrow> None)
          else None)"
  using assms
  by (auto simp: lo_interp_def x_at_def y_at_elems split: option.splits)

lemma hi_interp_value:
  assumes "length (x_values c) = length (elems (y_values c))"
  shows "hi_interp c xmax hi =
     Inr (if hi < length (x_values c) - 1 \<and> x_values c ! hi \<noteq> xmax
             \<and> x_values c ! (hi + 1) > xmax \<and> x_values c ! (hi + 1) \<noteq> x_values c ! hi
          then (case (elems (y_values c) ! hi, elems (y_values c) ! (hi + 1)) of
                  (Some v_hi, Some v_next) \<Rightarrow>
                    Some (v_hi + (xmax - x_values c ! hi)
                                 / (x_values c ! (hi + 1) - x_values c ! hi) * (v_next - v_hi))
                | _ \<Rightarrow> None)
          else None)"
  using assms
  by (auto simp: hi_interp_def x_at_def y_at_elems split: option.splits)

lemma query_without_samples:
  assumes "lower_bound (x_values c) xmin < length (x_values c)"
    and "0 < upper_bound (x_values c) xmax"
    and "upper_bound (x_values c) xmax - 1 < lower_bound (x_values c) xmin"
  shows "GetMinMaxOverDomainInterval c xmin xmax =
           and_then (lo_interp c xmin (lower_bound (x_values c) xmin)) (\<lambda>lo_val.
           and_then (hi_interp c xmax (upper_bound (x_values c) xmax - 1)) (\<lambda>hi_val.
           Inr (GetMinMax lo_val hi_val)))"
  using assms
  by (simp add: GetMinMaxOverDomainInterval_def Let_def merge_inside_def cong: and_then_cong)

text \<open>
  Over the full sample domain \<open>[x[0], x[n-1]]\<close> of a curve with two or more samples the
  domain query returns the linear scan of all y values.
\<close>

lemma strictly_increasing_sorted: "strictly_increasing xs \<Longrightarrow> sorted_wrt (<) xs"
  by (induction xs rule: strictly_increasing.induct) auto

lemma full_domain_query_correct:
  assumes c: "ExplicitSingleValueCurve2D xs ys si = Inr c"
    and n: "2 \<le> length (elems ys)"
  shows "GetMinMaxOverDomainInterval c (xs ! 0) (xs ! (length xs - 1))
         = Inr (linear_scan (elems ys) 0 (length xs - 1))"
proof -
  note R = constructor_result[OF c]
  have len: "length xs = length (elems ys)" and inc: "sorted_wrt (<) xs"
    using R(4) strictly_increasing_sorted[OF R(6)] by simp_all
  define m where "m = length xs - 1"
  have m: "length xs = Suc m" "0 < m" using n len by (simp_all add: m_def)
  have "takeWhile (\<lambda>x. x < xs ! 0) xs = []"
    using m by (cases xs) simp_all
  then have lb: "lower_bound xs (xs ! 0) = 0" by (simp add: lower_bound_def)
  have "\<forall>x \<in> set xs. \<not> xs ! m < x"
  proof
    fix x assume "x \<in> set xs"
    then obtain i where i: "i < length xs" "x = xs ! i" by (auto simp: in_set_conv_nth)
    show "\<not> xs ! m < x"
    proof (cases "i = m")
      case True
      then show ?thesis using i by simp
    next
      case False
      then have "i < m" using i(1) m by simp
      moreover have "m < length xs" using m by simp
      ultimately have "xs ! i < xs ! m"
        using inc by (rule sorted_wrt_nth_less[rotated])
      then show ?thesis using i(2) by simp
    qed
  qed
  then have "takeWhile (\<lambda>x. \<not> xs ! m < x) xs = xs"
    unfolding takeWhile_eq_all_conv by blast
  then have "upper_bound xs (xs ! m) = length xs"
    unfolding upper_bound_def by (rule arg_cong)
  then have ub: "upper_bound xs (xs ! m) = Suc m" using m by simp
  have wf: "length (x_values c) = length (elems (y_values c))"
    using R(1,2) len by simp
  have "0 < length (x_values c)" using m R(1) by simp
  then have l: "lo_interp c (xs ! 0) 0 = Inr None"
    using lo_interp_value[OF _ wf, of 0 "xs ! 0"] by simp
  have h: "hi_interp c (xs ! m) m = Inr None"
    using hi_interp_value[OF wf, of "xs ! m" m] R(1) m by simp
  have q: "GetMinMaxOverIndexInterval c 0 m 0 = Inr (linear_scan (elems ys) 0 m)"
    using m len by (intro index_query_correct[OF c n]) simp_all
  have mi: "merge_inside None None r = r" for r
    by (cases r) (auto simp: merge_inside_def GetOneOf_def GetMinMax_def)
  show ?thesis
    unfolding m_def[symmetric]
    by (simp add: GetMinMaxOverDomainInterval_def Let_def R(1) lb ub m l h q mi)
qed

section \<open>The domain query against the specification\<close>

text \<open>
  Where the searches find a position, the two interpolations of the code are the boundary
  values of the specification.
\<close>

lemma lo_interp_boundary:
  assumes "length (x_values c) = length (elems (y_values c))"
    and "lower_bound (x_values c) xmin < length (x_values c)"
  shows "lo_interp c xmin (lower_bound (x_values c) xmin)
         = Inr (lower_boundary_value (x_values c) (elems (y_values c)) xmin
                  (lower_bound (x_values c) xmin))"
proof -
  let ?xs = "x_values c"
  define lo where "lo = lower_bound ?xs xmin"
  have prev: "0 < lo \<Longrightarrow> ?xs ! (lo - 1) < xmin"
    using lower_bound_before[of "lo - 1" ?xs xmin] unfolding lo_def by simp
  have "lo < length ?xs" using assms(2) unfolding lo_def .
  from lo_interp_value[OF this assms(1), of xmin] prev
  show ?thesis
    unfolding lo_def[symmetric] lower_boundary_value_def interpolate_def
    by (auto split: option.splits)
qed

lemma hi_interp_boundary:
  assumes "length (x_values c) = length (elems (y_values c))"
    and "0 < upper_bound (x_values c) xmax"
  shows "hi_interp c xmax (upper_bound (x_values c) xmax - 1)
         = Inr (upper_boundary_value (x_values c) (elems (y_values c)) xmax
                  (upper_bound (x_values c) xmax - 1))"
proof -
  let ?xs = "x_values c"
  define hi where "hi = upper_bound ?xs xmax - 1"
  have ub: "upper_bound ?xs xmax = hi + 1" using assms(2) unfolding hi_def by simp
  have le: "?xs ! hi \<le> xmax"
    using upper_bound_before[of hi ?xs xmax] ub by simp
  have gt: "hi + 1 < length ?xs \<Longrightarrow> xmax < ?xs ! (hi + 1)"
    using upper_bound_at[of ?xs xmax] ub by simp
  have c1: "hi < length ?xs - 1 \<longleftrightarrow> hi + 1 < length ?xs" by auto
  from hi_interp_value[OF assms(1), of xmax hi] le gt
  show ?thesis
    unfolding hi_def[symmetric] upper_boundary_value_def interpolate_def c1
    by (auto split: option.splits)
qed

lemma merge_inside_scan:
  "merge_inside lo_val hi_val (linear_scan ys lo hi)
   = min_max_of ({v. \<exists>i. lo \<le> i \<and> i \<le> hi \<and> ys ! i = Some v}
                 \<union> set_option lo_val \<union> set_option hi_val)"
proof -
  let ?vs = "present_values ys lo hi"
  have P: "{v. \<exists>i. lo \<le> i \<and> i \<le> hi \<and> ys ! i = Some v} = set ?vs"
    by (simp add: set_present_values)
  show ?thesis
  proof (cases "?vs = []")
    case True
    then show ?thesis
      unfolding P
      by (cases lo_val; cases hi_val)
         (simp_all add: linear_scan_def Let_def merge_inside_def GetMinMax_def min_max_of_def
            min.commute max.commute)
  next
    case False
    then have ne: "set ?vs \<noteq> {}" by simp
    show ?thesis
      unfolding P using False ne
      by (cases lo_val; cases hi_val)
         (simp_all add: linear_scan_def Let_def merge_inside_def GetOneOf_def min_max_of_def
            min.commute max.commute min.left_commute max.left_commute)
  qed
qed

text \<open>
  The domain query of a curve with two or more samples returns the minimum and maximum of
  the values present at the sample indices in range together with the boundary values.
\<close>

lemma domain_query_correct:
  assumes c: "ExplicitSingleValueCurve2D xs ys si = Inr c"
    and n: "2 \<le> length (elems ys)"
    and lb: "lower_bound xs xmin < length xs"
    and ub: "0 < upper_bound xs xmax"
  shows "GetMinMaxOverDomainInterval c xmin xmax =
         Inr (min_max_of
               ({v. \<exists>i. lower_bound xs xmin \<le> i \<and> i \<le> upper_bound xs xmax - 1
                        \<and> elems ys ! i = Some v}
                \<union> set_option (lower_boundary_value xs (elems ys) xmin (lower_bound xs xmin))
                \<union> set_option (upper_boundary_value xs (elems ys) xmax (upper_bound xs xmax - 1))))"
proof -
  note R = constructor_result[OF c]
  define lo where "lo = lower_bound xs xmin"
  define hi where "hi = upper_bound xs xmax - 1"
  have wf: "length (x_values c) = length (elems (y_values c))" using R(1,2,4) by simp
  have l: "lo_interp c xmin lo = Inr (lower_boundary_value xs (elems ys) xmin lo)"
    using lo_interp_boundary[OF wf, of xmin] lb unfolding R(1,2) lo_def by simp
  have h: "hi_interp c xmax hi = Inr (upper_boundary_value xs (elems ys) xmax hi)"
    using hi_interp_boundary[OF wf, of xmax] ub unfolding R(1,2) hi_def by simp
  have hin: "hi < length (elems ys)"
    using upper_bound_le[of xs xmax] ub R(4) unfolding hi_def by simp
  have hi': "upper_bound xs xmax - Suc 0 = hi" unfolding hi_def by simp
  have in1: "lo \<le> hi \<Longrightarrow> GetMinMaxOverIndexInterval c lo hi 0 = Inr (linear_scan (elems ys) lo hi)"
    using index_query_correct[OF c n _ hin] by simp
  have in2: "\<not> lo \<le> hi \<Longrightarrow> linear_scan (elems ys) lo hi = None"
    by (simp add: linear_scan_def present_values_def map_filter_simps)
  have "GetMinMaxOverDomainInterval c xmin xmax =
        Inr (merge_inside (lower_boundary_value xs (elems ys) xmin lo)
                          (upper_boundary_value xs (elems ys) xmax hi)
                          (linear_scan (elems ys) lo hi))"
    using lb ub
    by (simp add: GetMinMaxOverDomainInterval_def Let_def R(1) lo_def[symmetric] hi' l h in1 in2)
  then show ?thesis
    unfolding merge_inside_scan lo_def hi_def .
qed

text \<open>
  A bound strictly between two neighbouring samples is found by the searches at the upper
  one of the two.
\<close>

lemma lower_bound_between:
  assumes s: "strictly_increasing xs" and i: "i + 1 < length xs"
    and a: "xs ! i < xmin" and b: "xmin < xs ! (i + 1)"
  shows "lower_bound xs xmin = i + 1"
proof -
  have srt: "sorted_wrt (<) xs" using s by (rule strictly_increasing_sorted)
  have "\<not> lower_bound xs xmin \<le> i"
  proof
    assume le: "lower_bound xs xmin \<le> i"
    then have lt: "lower_bound xs xmin < length xs" using i by simp
    have "xs ! lower_bound xs xmin \<le> xs ! i"
    proof (cases "lower_bound xs xmin = i")
      case True then show ?thesis by simp
    next
      case False
      then have "lower_bound xs xmin < i" using le by simp
      then have "xs ! lower_bound xs xmin < xs ! i"
        using srt i by (simp add: sorted_wrt_nth_less)
      then show ?thesis by simp
    qed
    moreover have "xmin \<le> xs ! lower_bound xs xmin" using lower_bound_at[of xs xmin] lt by simp
    ultimately show False using a by simp
  qed
  moreover have "\<not> i + 1 < lower_bound xs xmin"
  proof
    assume "i + 1 < lower_bound xs xmin"
    then have "xs ! (i + 1) < xmin" by (rule lower_bound_before)
    then show False using b by simp
  qed
  ultimately show ?thesis by simp
qed

lemma upper_bound_between:
  assumes s: "strictly_increasing xs" and i: "i + 1 < length xs"
    and a: "xs ! i < xmax" and b: "xmax < xs ! (i + 1)"
  shows "upper_bound xs xmax = i + 1"
proof -
  have srt: "sorted_wrt (<) xs" using s by (rule strictly_increasing_sorted)
  have "\<not> upper_bound xs xmax \<le> i"
  proof
    assume le: "upper_bound xs xmax \<le> i"
    then have lt: "upper_bound xs xmax < length xs" using i by simp
    have "xs ! upper_bound xs xmax \<le> xs ! i"
    proof (cases "upper_bound xs xmax = i")
      case True then show ?thesis by simp
    next
      case False
      then have "upper_bound xs xmax < i" using le by simp
      then have "xs ! upper_bound xs xmax < xs ! i"
        using srt i by (simp add: sorted_wrt_nth_less)
      then show ?thesis by simp
    qed
    moreover have "xmax < xs ! upper_bound xs xmax" using upper_bound_at[of xs xmax] lt by simp
    ultimately show False using a by simp
  qed
  moreover have "\<not> i + 1 < upper_bound xs xmax"
  proof
    assume "i + 1 < upper_bound xs xmax"
    then have "xs ! (i + 1) \<le> xmax" using upper_bound_before[of "i + 1" xs xmax] by simp
    then show False using b by simp
  qed
  ultimately show ?thesis by simp
qed

lemma x_at_intervals: "x_at (c\<lparr>intervals := iv\<rparr>) i = x_at c i"
  by (simp add: x_at_def)

lemma y_at_intervals: "y_at (c\<lparr>intervals := iv\<rparr>) i = y_at c i"
  by (simp add: y_at_def)

lemma lo_interp_intervals: "lo_interp (c\<lparr>intervals := iv\<rparr>) xmin lo = lo_interp c xmin lo"
  by (simp only: lo_interp_def x_at_intervals y_at_intervals curve.simps)

lemma hi_interp_intervals: "hi_interp (c\<lparr>intervals := iv\<rparr>) xmax hi = hi_interp c xmax hi"
proof -
  have xv: "x_values (c\<lparr>intervals := iv\<rparr>) = x_values c" by simp
  show ?thesis by (simp only: hi_interp_def x_at_intervals y_at_intervals xv)
qed

lemma query_without_samples_intervals:
  assumes "upper_bound (x_values c) xmax \<le> lower_bound (x_values c) xmin"
  shows "GetMinMaxOverDomainInterval (c\<lparr>intervals := iv\<rparr>) xmin xmax
         = GetMinMaxOverDomainInterval c xmin xmax"
proof (cases "lower_bound (x_values c) xmin = length (x_values c) \<or> upper_bound (x_values c) xmax = 0")
  case True
  then show ?thesis by (auto simp: GetMinMaxOverDomainInterval_def Let_def)
next
  case False
  then have f: "lower_bound (x_values c) xmin < length (x_values c)" "0 < upper_bound (x_values c) xmax"
    using lower_bound_le[of "x_values c" xmin] by simp_all
  then have e: "upper_bound (x_values c) xmax - 1 < lower_bound (x_values c) xmin"
    using assms by simp
  have "GetMinMaxOverDomainInterval (c\<lparr>intervals := iv\<rparr>) xmin xmax =
           and_then (lo_interp c xmin (lower_bound (x_values c) xmin)) (\<lambda>lo_val.
           and_then (hi_interp c xmax (upper_bound (x_values c) xmax - 1)) (\<lambda>hi_val.
           Inr (GetMinMax lo_val hi_val)))"
    using query_without_samples[of "c\<lparr>intervals := iv\<rparr>" xmin xmax] f e
    by (simp add: lo_interp_intervals hi_interp_intervals)
  then show ?thesis unfolding query_without_samples[OF f e] .
qed

text \<open>
  The searches find no position exactly when \<open>xmin\<close> exceeds every sample, or \<open>xmax\<close> is
  less than every sample.
\<close>

lemma lower_bound_none_iff:
  "lower_bound xs xmin = length xs \<longleftrightarrow> (\<forall>x \<in> set xs. x < xmin)"
proof
  assume a: "lower_bound xs xmin = length xs"
  have "takeWhile (\<lambda>x. x < xmin) xs = take (length (takeWhile (\<lambda>x. x < xmin) xs)) xs"
    by (rule takeWhile_eq_take)
  then have "takeWhile (\<lambda>x. x < xmin) xs = xs"
    using a unfolding lower_bound_def by simp
  then show "\<forall>x \<in> set xs. x < xmin"
    unfolding takeWhile_eq_all_conv by blast
next
  assume "\<forall>x \<in> set xs. x < xmin"
  then have "takeWhile (\<lambda>x. x < xmin) xs = xs"
    unfolding takeWhile_eq_all_conv by blast
  then show "lower_bound xs xmin = length xs"
    unfolding lower_bound_def by (rule arg_cong)
qed

lemma upper_bound_none_iff:
  assumes "strictly_increasing xs" and "xs \<noteq> []"
  shows "upper_bound xs xmax = 0 \<longleftrightarrow> (\<forall>x \<in> set xs. xmax < x)"
proof -
  obtain x0 rest where xs: "xs = x0 # rest" using assms(2) by (cases xs) auto
  have "sorted_wrt (<) xs" using assms(1) by (rule strictly_increasing_sorted)
  then have r: "\<forall>y \<in> set rest. x0 < y" unfolding xs by simp
  have "upper_bound xs xmax = 0 \<longleftrightarrow> xmax < x0"
    unfolding upper_bound_def xs by simp
  also have "\<dots> \<longleftrightarrow> (\<forall>x \<in> set xs. xmax < x)"
    unfolding xs using r by auto
  finally show ?thesis .
qed

section \<open>The example curves\<close>

lemma CeilingLog2_Suc0: "CeilingLog2 (Suc 0) = 0"
  by code_simp
lemma CeilingLog2_Suc2: "CeilingLog2 (Suc (Suc 0)) = 1"
  by code_simp
lemma CeilingLog2_Suc3: "CeilingLog2 (Suc (Suc (Suc 0))) = 2"
  by code_simp
lemma CeilingLog2_Suc4: "CeilingLog2 (Suc (Suc (Suc (Suc 0)))) = 2"
  by code_simp

lemmas CeilingLog2_small = CeilingLog2_Suc0 CeilingLog2_Suc2 CeilingLog2_Suc3 CeilingLog2_Suc4

lemmas read_defs = x_at_def y_at_def interval_at_def read_at_def set_interval_def

lemma construct_1:
  "ExplicitSingleValueCurve2D [x0] \<lparr>elems = [y0], stray = sy\<rparr> si
   = Inr \<lparr>x_values = [x0], y_values = \<lparr>elems = [y0], stray = sy\<rparr>,
          intervals = \<lparr>elems = [], stray = si\<rparr>\<rparr>"
  by (simp add: ExplicitSingleValueCurve2D_def CeilingLog2_small)

lemma construct_2:
  "x0 < x1 \<Longrightarrow>
   ExplicitSingleValueCurve2D [x0, x1] \<lparr>elems = [y0, y1], stray = sy\<rparr> si
   = Inr \<lparr>x_values = [x0, x1], y_values = \<lparr>elems = [y0, y1], stray = sy\<rparr>,
          intervals = \<lparr>elems = [\<lparr>lo_idx = 0, hi_idx = 1, min_max = GetMinMax y0 y1\<rparr>],
                       stray = si\<rparr>\<rparr>"
  apply (simp add: ExplicitSingleValueCurve2D_def FillIntervals_def CeilingLog2_small Let_def)
  apply (simp add: fill_lowest_layer.simps read_defs Let_def)
  done

lemma construct_3:
  "x0 < x1 \<Longrightarrow> x1 < x2 \<Longrightarrow>
   ExplicitSingleValueCurve2D [x0, x1, x2] \<lparr>elems = [y0, y1, y2], stray = g # sy\<rparr> si
   = Inr \<lparr>x_values = [x0, x1, x2],
          y_values = \<lparr>elems = [y0, y1, y2], stray = g # sy\<rparr>,
          intervals = \<lparr>elems =
             [\<lparr>lo_idx = 0, hi_idx = 3,
               min_max = combine_min_max (GetMinMax y0 y1) (GetMinMax y2 g)\<rparr>,
              \<lparr>lo_idx = 0, hi_idx = 1, min_max = GetMinMax y0 y1\<rparr>,
              \<lparr>lo_idx = 2, hi_idx = 3, min_max = GetMinMax y2 g\<rparr>],
             stray = si\<rparr>\<rparr>"
  apply (simp add: ExplicitSingleValueCurve2D_def FillIntervals_def CeilingLog2_small Let_def)
  apply (simp add: fill_lowest_layer.simps read_defs Let_def numeral_2_eq_2 numeral_3_eq_3)
  apply (simp add: fill_higher_layer.simps read_defs Let_def)
  done

lemma construct_3_fault:
  "x0 < x1 \<Longrightarrow> x1 < x2 \<Longrightarrow>
   ExplicitSingleValueCurve2D [x0, x1, x2] \<lparr>elems = [y0, y1, y2], stray = []\<rparr> si
   = Inl (YValuesOutOfRange 3)"
  apply (simp add: ExplicitSingleValueCurve2D_def FillIntervals_def CeilingLog2_small Let_def)
  apply (simp add: fill_lowest_layer.simps read_defs Let_def numeral_2_eq_2 numeral_3_eq_3)
  done

lemma construct_4:
  "x0 < x1 \<Longrightarrow> x1 < x2 \<Longrightarrow> x2 < x3 \<Longrightarrow>
   ExplicitSingleValueCurve2D [x0, x1, x2, x3] \<lparr>elems = [y0, y1, y2, y3], stray = sy\<rparr> si
   = Inr \<lparr>x_values = [x0, x1, x2, x3],
          y_values = \<lparr>elems = [y0, y1, y2, y3], stray = sy\<rparr>,
          intervals = \<lparr>elems =
             [\<lparr>lo_idx = 0, hi_idx = 3,
               min_max = combine_min_max (GetMinMax y0 y1) (GetMinMax y2 y3)\<rparr>,
              \<lparr>lo_idx = 0, hi_idx = 1, min_max = GetMinMax y0 y1\<rparr>,
              \<lparr>lo_idx = 2, hi_idx = 3, min_max = GetMinMax y2 y3\<rparr>],
             stray = si\<rparr>\<rparr>"
  apply (simp add: ExplicitSingleValueCurve2D_def FillIntervals_def CeilingLog2_small Let_def)
  apply (simp add: fill_lowest_layer.simps read_defs Let_def numeral_2_eq_2 numeral_3_eq_3)
  apply (simp add: fill_higher_layer.simps read_defs Let_def)
  done

lemmas query_defs = GetMinMaxOverDomainInterval_def lower_bound_def upper_bound_def
  lo_interp_def hi_interp_def merge_inside_def GetOneOf_def GetMinMax_def combine_min_max_def
  GetMinMaxOverIndexInterval.simps read_defs Let_def

lemma CeilingLog2_four: "CeilingLog2 4 = 2"
  by code_simp

lemma construct_single_sample:
  "ExplicitSingleValueCurve2D [0] \<lparr>elems = [Some 5], stray = []\<rparr> [] = Inr single_sample"
  by (simp add: construct_1 single_sample_def)

lemma construct_single_sample_zeroed:
  "ExplicitSingleValueCurve2D [0] \<lparr>elems = [Some 5], stray = []\<rparr>
     [\<lparr>lo_idx = 0, hi_idx = 0, min_max = None\<rparr>] = Inr single_sample_zeroed"
  by (simp add: construct_1 single_sample_zeroed_def)

lemma construct_two_samples:
  "ExplicitSingleValueCurve2D [0, 1] \<lparr>elems = [Some 0, Some 1], stray = []\<rparr> [] = Inr two_samples"
  by (simp add: construct_2 two_samples_def GetMinMax_def)

lemma construct_three_samples:
  "ExplicitSingleValueCurve2D [0, 1, 2] \<lparr>elems = [Some 0, Some 1, Some 2], stray = [None]\<rparr> []
   = Inr three_samples"
  by (simp add: construct_3 three_samples_def GetMinMax_def combine_min_max_def)

lemma construct_four_samples:
  "ExplicitSingleValueCurve2D [0, 1, 2, 3]
     \<lparr>elems = [Some 0, Some (- 1), Some 4, Some 3], stray = []\<rparr> [] = Inr four_samples"
  by (simp add: construct_4 four_samples_def GetMinMax_def combine_min_max_def)

lemma construct_gap_curve_b:
  "ExplicitSingleValueCurve2D [0, 1, 2, 3] \<lparr>elems = [Some 0, Some 1, None, Some 3], stray = []\<rparr> []
   = Inr gap_curve_b"
  by (simp add: construct_4 gap_curve_b_def GetMinMax_def combine_min_max_def)

lemma construct_falling_samples:
  "ExplicitSingleValueCurve2D [0, 1] \<lparr>elems = [Some 1, Some 0], stray = []\<rparr> [] = Inr falling_samples"
  by (simp add: construct_2 falling_samples_def GetMinMax_def)

lemma construct_falling_gap_curve:
  "ExplicitSingleValueCurve2D [0, 1, 2, 3] \<lparr>elems = [Some 3, Some 1, None, Some 0], stray = []\<rparr> []
   = Inr falling_gap_curve"
  by (simp add: construct_4 falling_gap_curve_def GetMinMax_def combine_min_max_def)

section \<open>The claims\<close>

text \<open>
  Claim C1: for every curve of \<open>n \<ge> 1\<close> samples and \<open>0 \<le> lo \<le> hi < n\<close>,
  \<open>GetMinMaxOverIndexInterval(lo, hi, 0)\<close> returns the minimum and maximum of the non-gap
  y values at \<open>lo..hi\<close>, and empty exactly when all of them are gaps. For \<open>n \<ge> 2\<close> this
  is lemma \<open>index_query_correct\<close>. For \<open>n = 1\<close> the code does otherwise: the constructor
  allocates no node, and the query reads \<open>intervals_[0]\<close> for its exact-match test before it
  looks at \<open>lo = hi\<close>. With nothing readable behind the empty array the read is an error
  value. With a zeroed cell there (\<open>lo_idx = hi_idx = 0\<close>, no value) the exact-match test
  succeeds and the query returns empty, although the linear scan of the one sample is
  \<open>(5, 5)\<close>.
\<close>

theorem C1_single_sample_index_query:
  "ExplicitSingleValueCurve2D [0] \<lparr>elems = [Some 5], stray = []\<rparr> [] = Inr single_sample
   \<and> GetMinMaxOverIndexInterval single_sample 0 0 0 = Inl (IntervalsOutOfRange 0)
   \<and> ExplicitSingleValueCurve2D [0] \<lparr>elems = [Some 5], stray = []\<rparr>
        [\<lparr>lo_idx = 0, hi_idx = 0, min_max = None\<rparr>] = Inr single_sample_zeroed
   \<and> GetMinMaxOverIndexInterval single_sample_zeroed 0 0 0 = Inr None
   \<and> linear_scan [Some 5] 0 0 = Some (5, 5)"
  by (simp add: construct_single_sample construct_single_sample_zeroed linear_scan_single)
     (simp add: single_sample_def single_sample_zeroed_def GetMinMaxOverIndexInterval.simps
        interval_at_def read_at_def)

text \<open>
  Claim C2: for every curve of \<open>n \<ge> 1\<close> samples,
  \<open>GetMinMaxOverDomainInterval(x[0], x[n-1])\<close> equals the linear scan over all non-gap
  y values. For \<open>n \<ge> 2\<close> this is lemma \<open>full_domain_query_correct\<close>. For \<open>n = 1\<close> the
  domain query calls the index query with \<open>(0, 0, 0)\<close>, which reads the node that was never
  allocated: an error value when nothing is readable there, the empty result when the cell
  is zeroed, and in neither case the scan's \<open>(5, 5)\<close>.
\<close>

theorem C2_single_sample_domain_query:
  "ExplicitSingleValueCurve2D [0] \<lparr>elems = [Some 5], stray = []\<rparr> [] = Inr single_sample
   \<and> GetMinMaxOverDomainInterval single_sample 0 0 = Inl (IntervalsOutOfRange 0)
   \<and> ExplicitSingleValueCurve2D [0] \<lparr>elems = [Some 5], stray = []\<rparr>
        [\<lparr>lo_idx = 0, hi_idx = 0, min_max = None\<rparr>] = Inr single_sample_zeroed
   \<and> GetMinMaxOverDomainInterval single_sample_zeroed 0 0 = Inr None
   \<and> linear_scan [Some 5] 0 0 = Some (5, 5)"
  by (simp add: construct_single_sample construct_single_sample_zeroed linear_scan_single)
     (simp add: single_sample_def single_sample_zeroed_def query_defs)

text \<open>
  Claim C3: for every \<open>n \<ge> 2\<close> each bottom-level leaf interval built by \<open>FillIntervals\<close>
  has \<open>hi_idx \<le> n - 1\<close>, so every read of the y values during construction is in bounds.
  For \<open>n = 3\<close> the code does otherwise: \<open>k = 2\<close>, the second leaf is \<open>(2, 3)\<close>, and
  \<open>FillIntervals\<close> reads \<open>y_values_[3]\<close> of a vector of three. With nothing readable behind
  the vector the constructor ends in the error value for that read; with a readable cell
  there it returns a curve whose node 2 has \<open>hi_idx = 3\<close>.
\<close>

theorem C3_leaf_past_the_last_sample:
  "ExplicitSingleValueCurve2D [0, 1, 2] \<lparr>elems = [Some 0, Some 1, Some 2], stray = []\<rparr> []
     = Inl (YValuesOutOfRange 3)
   \<and> ExplicitSingleValueCurve2D [0, 1, 2] \<lparr>elems = [Some 0, Some 1, Some 2], stray = [None]\<rparr> []
     = Inr three_samples
   \<and> length (elems (y_values three_samples)) = 3
   \<and> hi_idx (elems (intervals three_samples) ! 2) = 3"
  by (simp add: construct_3_fault construct_three_samples) (simp add: three_samples_def)

text \<open>
  Claim C4: every read of the node array made while answering
  \<open>GetMinMaxOverIndexInterval(lo, hi, 0)\<close> with \<open>0 \<le> lo \<le> hi < n\<close> stays within the allocated
  nodes, also for \<open>n = 1\<close>. For \<open>n = 1\<close> the code does otherwise: no node is allocated and
  the query reads node 0.
\<close>

theorem C4_single_sample_reads_missing_node:
  "ExplicitSingleValueCurve2D [0] \<lparr>elems = [Some 5], stray = []\<rparr> [] = Inr single_sample
   \<and> length (elems (intervals single_sample)) = 0
   \<and> interval_at single_sample 0 = Inl (IntervalsOutOfRange 0)
   \<and> GetMinMaxOverIndexInterval single_sample 0 0 0 = Inl (IntervalsOutOfRange 0)"
  by (simp add: construct_single_sample)
     (simp add: single_sample_def GetMinMaxOverIndexInterval.simps interval_at_def read_at_def)

text \<open>
  Claim C5: after construction of a curve with \<open>n \<ge> 2\<close> samples, every node above the
  bottom layer (the nodes \<open>i < 2 ^ (k - 1) - 1\<close>, \<open>k = CeilingLog2 n\<close>) has both children
  \<open>2*i+1\<close> and \<open>2*i+2\<close> allocated and stores the gap-aware combination of their stored
  values: the smaller minimum and the larger maximum when both are present, the one
  present value when only one is, and nothing when neither is. The queries are \<open>const\<close>
  member functions; here they are functions of the curve that return a result and no
  curve, so nothing changes a stored node after construction.
\<close>

theorem C5_internal_nodes_combine_children:
  assumes "ExplicitSingleValueCurve2D xs ys si = Inr c"
    and "2 \<le> length (elems ys)"
    and "i < 2 ^ (nat (CeilingLog2 (length (elems ys))) - 1) - 1"
  shows "2 * i + 2 < length (elems (intervals c))
    \<and> min_max (elems (intervals c) ! i) =
        (case (min_max (elems (intervals c) ! (2 * i + 1)),
               min_max (elems (intervals c) ! (2 * i + 2))) of
           (Some (min1, max1), Some (min2, max2)) \<Rightarrow> Some (min min1 min2, max max1 max2)
         | (Some v1, None) \<Rightarrow> Some v1
         | (None, Some v2) \<Rightarrow> Some v2
         | (None, None) \<Rightarrow> None)"
proof -
  define k where "k = nat (CeilingLog2 (length (elems ys)))"
  let ?c0 = "\<lparr>x_values = xs, y_values = ys,
              intervals = \<lparr>elems = replicate (2 ^ k - 1) \<lparr>lo_idx = 0, hi_idx = 0, min_max = None\<rparr>,
                           stray = si\<rparr>\<rparr>"
  note R = constructor_result[OF assms(1), folded k_def]
  have k1: "1 \<le> k" using R(10)[OF assms(2)] by simp
  have run: "FillIntervals ?c0 = Inr c" using R(11)[OF assms(2)] .
  have kk: "k = nat (CeilingLog2 (length (elems (y_values ?c0))))" by (simp add: k_def)
  have ll: "length (nodes ?c0) = 2 ^ k - 1" by simp
  note F = FillIntervals_result[OF run kk ll k1]
  from assms(3) obtain l j where lj: "l < k - 1" "j < 2 ^ l" "i = node_index l j"
    using node_index_cover[of i "k - 1"] unfolding k_def by blast
  have "nodes c ! i =
      \<lparr>lo_idx = j * 2 ^ (k - l), hi_idx = j * 2 ^ (k - l) + 2 ^ (k - l) - 1,
       min_max = combine_min_max (min_max (nodes c ! (2 * i + 1)))
                                 (min_max (nodes c ! (2 * i + 2)))\<rparr>"
    using F(6)[OF lj(1,2)] unfolding lj(3) by (simp only: node_index_children)
  then have mm: "min_max (nodes c ! i) = combine_min_max (min_max (nodes c ! (2 * i + 1)))
                                 (min_max (nodes c ! (2 * i + 2)))"
    by simp
  have "(2::nat) ^ k = 2 * 2 ^ (k - 1)" using k1 by (cases k) simp_all
  then have "2 * i + 2 < length (nodes c)"
    using assms(3) F(4) unfolding k_def[symmetric] by simp
  then show ?thesis
    unfolding mm by (simp add: combine_min_max_def)
qed

theorem C5_internal_nodes_combine_children_witness:
  "ExplicitSingleValueCurve2D [0, 1, 2, 3]
     \<lparr>elems = [Some 0, Some (- 1), Some 4, Some 3], stray = []\<rparr> [] = Inr four_samples
   \<and> (2::nat) \<le> length [Some (0::real), Some (- 1), Some 4, Some 3]
   \<and> (0::nat) < 2 ^ (nat (CeilingLog2 4) - 1) - 1
   \<and> min_max (elems (intervals four_samples) ! 1) = Some (- 1, 0)
   \<and> min_max (elems (intervals four_samples) ! 2) = Some (3, 4)
   \<and> min_max (elems (intervals four_samples) ! 0) = Some (min (- 1) 3, max 0 4)"
proof -
  have h3: "(0::nat) < 2 ^ (nat (CeilingLog2 (length (elems \<lparr>elems = [Some (0::real), Some (- 1), Some 4, Some 3],
              stray = []\<rparr>))) - 1) - 1"
    by (simp add: CeilingLog2_small)
  have h2: "2 \<le> length (elems \<lparr>elems = [Some (0::real), Some (- 1), Some 4, Some 3], stray = []\<rparr>)"
    by simp
  from C5_internal_nodes_combine_children[OF construct_four_samples h2 h3]
  show ?thesis
    by (simp add: construct_four_samples four_samples_def CeilingLog2_four)
qed

text \<open>
  Claim C6: an interpolated value at a query bound exists only when the y values on both
  sides of the bound are present, and gap samples take no part in the result. For every
  curve the constructor returns with two or more samples, and every query for which both
  searches find a position, the result is the minimum and maximum of the values present
  at the sample indices in range together with the boundary values; it is empty when there
  is none. For the samples \<open>x = [0, 1, 2, 3]\<close> the query \<open>(0.5, 2.5)\<close> is empty for
  \<open>y = [0, gap, gap, 3]\<close>, is \<open>(0.5, 1.0)\<close> for \<open>y = [0, 1, gap, 3]\<close> and is
  \<open>(2.0, 2.5)\<close> for \<open>y = [0, gap, 2, 3]\<close>. Queries answered from stored nodes: for
  \<open>y = [0, gap, gap, 3]\<close> the query \<open>(0, 1)\<close> gives \<open>(0, 0)\<close> and \<open>(0, 3)\<close> gives \<open>(0, 3)\<close>;
  for \<open>y = [3, 1, gap, 0]\<close> the query \<open>(0, 1)\<close> gives \<open>(1, 3)\<close>, \<open>(2, 3)\<close> gives \<open>(0, 0)\<close> and
  \<open>(0, 3)\<close> gives \<open>(0, 3)\<close>.
\<close>

theorem C6_gaps_suppress_interpolation:
  "(lo_interp c xmin lo = Inr (Some v) \<longrightarrow>
      (\<exists>a b. y_at c lo = Inr (Some a) \<and> y_at c (lo - 1) = Inr (Some b)))
   \<and> (hi_interp c xmax hi = Inr (Some v') \<longrightarrow>
      (\<exists>a b. y_at c hi = Inr (Some a) \<and> y_at c (hi + 1) = Inr (Some b)))
   \<and> (ExplicitSingleValueCurve2D xs ys sj = Inr cc \<and> 2 \<le> length (elems ys)
        \<and> lower_bound xs qmin < length xs \<and> 0 < upper_bound xs qmax \<longrightarrow>
      GetMinMaxOverDomainInterval cc qmin qmax =
        Inr (min_max_of
               ({y. \<exists>i. lower_bound xs qmin \<le> i \<and> i \<le> upper_bound xs qmax - 1
                        \<and> elems ys ! i = Some y}
                \<union> set_option (lower_boundary_value xs (elems ys) qmin (lower_bound xs qmin))
                \<union> set_option (upper_boundary_value xs (elems ys) qmax
                                 (upper_bound xs qmax - 1)))))
   \<and> (\<exists>c1. ExplicitSingleValueCurve2D [0, 1, 2, 3]
               \<lparr>elems = [Some 0, None, None, Some 3], stray = sy\<rparr> si = Inr c1
          \<and> GetMinMaxOverDomainInterval c1 (1/2) (5/2) = Inr None
          \<and> GetMinMaxOverDomainInterval c1 0 1 = Inr (Some (0, 0))
          \<and> GetMinMaxOverDomainInterval c1 0 3 = Inr (Some (0, 3)))
   \<and> (\<exists>c2. ExplicitSingleValueCurve2D [0, 1, 2, 3]
               \<lparr>elems = [Some 0, Some 1, None, Some 3], stray = sy\<rparr> si = Inr c2
          \<and> GetMinMaxOverDomainInterval c2 (1/2) (5/2) = Inr (Some (1/2, 1)))
   \<and> (\<exists>c3. ExplicitSingleValueCurve2D [0, 1, 2, 3]
               \<lparr>elems = [Some 0, None, Some 2, Some 3], stray = sy\<rparr> si = Inr c3
          \<and> GetMinMaxOverDomainInterval c3 (1/2) (5/2) = Inr (Some (2, 5/2)))
   \<and> (\<exists>c4. ExplicitSingleValueCurve2D [0, 1, 2, 3]
               \<lparr>elems = [Some 3, Some 1, None, Some 0], stray = sy\<rparr> si = Inr c4
          \<and> GetMinMaxOverDomainInterval c4 0 1 = Inr (Some (1, 3))
          \<and> GetMinMaxOverDomainInterval c4 2 3 = Inr (Some (0, 0))
          \<and> GetMinMaxOverDomainInterval c4 0 3 = Inr (Some (0, 3)))"
proof (intro conjI impI)
  assume "lo_interp c xmin lo = Inr (Some v)"
  then show "\<exists>a b. y_at c lo = Inr (Some a) \<and> y_at c (lo - 1) = Inr (Some b)"
    unfolding lo_interp_def
    by (auto dest!: and_then_InrD split: if_splits option.splits)
next
  assume "hi_interp c xmax hi = Inr (Some v')"
  then show "\<exists>a b. y_at c hi = Inr (Some a) \<and> y_at c (hi + 1) = Inr (Some b)"
    unfolding hi_interp_def
    by (auto dest!: and_then_InrD split: if_splits option.splits)
next
  assume "ExplicitSingleValueCurve2D xs ys sj = Inr cc \<and> 2 \<le> length (elems ys)
        \<and> lower_bound xs qmin < length xs \<and> 0 < upper_bound xs qmax"
  then show "GetMinMaxOverDomainInterval cc qmin qmax =
        Inr (min_max_of
               ({y. \<exists>i. lower_bound xs qmin \<le> i \<and> i \<le> upper_bound xs qmax - 1
                        \<and> elems ys ! i = Some y}
                \<union> set_option (lower_boundary_value xs (elems ys) qmin (lower_bound xs qmin))
                \<union> set_option (upper_boundary_value xs (elems ys) qmax
                                 (upper_bound xs qmax - 1))))"
    using domain_query_correct[of xs ys sj cc qmin qmax] by simp
next
  show "\<exists>c1. ExplicitSingleValueCurve2D [0, 1, 2, 3]
               \<lparr>elems = [Some 0, None, None, Some 3], stray = sy\<rparr> si = Inr c1
          \<and> GetMinMaxOverDomainInterval c1 (1/2) (5/2) = Inr None
          \<and> GetMinMaxOverDomainInterval c1 0 1 = Inr (Some (0, 0))
          \<and> GetMinMaxOverDomainInterval c1 0 3 = Inr (Some (0, 3))"
    by (simp add: construct_4 query_defs)
next
  show "\<exists>c2. ExplicitSingleValueCurve2D [0, 1, 2, 3]
               \<lparr>elems = [Some 0, Some 1, None, Some 3], stray = sy\<rparr> si = Inr c2
          \<and> GetMinMaxOverDomainInterval c2 (1/2) (5/2) = Inr (Some (1/2, 1))"
    by (simp add: construct_4 query_defs)
next
  show "\<exists>c3. ExplicitSingleValueCurve2D [0, 1, 2, 3]
               \<lparr>elems = [Some 0, None, Some 2, Some 3], stray = sy\<rparr> si = Inr c3
          \<and> GetMinMaxOverDomainInterval c3 (1/2) (5/2) = Inr (Some (2, 5/2))"
    by (simp add: construct_4 query_defs)
next
  show "\<exists>c4. ExplicitSingleValueCurve2D [0, 1, 2, 3]
               \<lparr>elems = [Some 3, Some 1, None, Some 0], stray = sy\<rparr> si = Inr c4
          \<and> GetMinMaxOverDomainInterval c4 0 1 = Inr (Some (1, 3))
          \<and> GetMinMaxOverDomainInterval c4 2 3 = Inr (Some (0, 0))
          \<and> GetMinMaxOverDomainInterval c4 0 3 = Inr (Some (0, 3))"
    by (simp add: construct_4 query_defs)
qed

theorem C6_gaps_suppress_interpolation_witness:
  "lo_interp gap_curve_b (1/2) 1 = Inr (Some (1/2))
   \<and> (\<exists>a b. y_at gap_curve_b 1 = Inr (Some a) \<and> y_at gap_curve_b (1 - 1) = Inr (Some b))
   \<and> hi_interp gap_curve_b (1/2) 0 = Inr (Some (1/2))
   \<and> (\<exists>a b. y_at gap_curve_b 0 = Inr (Some a) \<and> y_at gap_curve_b (0 + 1) = Inr (Some b))
   \<and> hi_interp gap_curve_b (5/2) 2 = Inr None
   \<and> GetMinMaxOverDomainInterval gap_curve_b (1/2) (5/2) = Inr (Some (1/2, 1))
   \<and> ExplicitSingleValueCurve2D [0, 1, 2, 3]
        \<lparr>elems = [Some 3, Some 1, None, Some 0], stray = []\<rparr> [] = Inr falling_gap_curve
   \<and> (2::nat) \<le> length [Some (3::real), Some 1, None, Some 0]
   \<and> lower_bound [0, 1, 2, 3] 0 = 0 \<and> upper_bound [0, 1, 2, 3] 3 = 4
   \<and> GetMinMaxOverDomainInterval falling_gap_curve 0 3 =
        Inr (min_max_of
               ({y. \<exists>i. 0 \<le> i \<and> i \<le> 4 - 1 \<and> [Some 3, Some 1, None, Some 0] ! i = Some y}
                \<union> set_option (lower_boundary_value [0, 1, 2, 3] [Some 3, Some 1, None, Some 0] 0 0)
                \<union> set_option (upper_boundary_value [0, 1, 2, 3] [Some 3, Some 1, None, Some 0] 3
                                 (4 - 1))))
   \<and> min_max_of
         ({y. \<exists>i. 0 \<le> i \<and> i \<le> 4 - 1 \<and> [Some 3, Some 1, None, Some 0] ! i = Some y}
          \<union> set_option (lower_boundary_value [0, 1, 2, 3] [Some 3, Some 1, None, Some 0] 0 0)
          \<union> set_option (upper_boundary_value [0, 1, 2, 3] [Some 3, Some 1, None, Some 0] 3
                           (4 - 1))) = Some (0, 3)
   \<and> GetMinMaxOverDomainInterval falling_gap_curve 0 3 = Inr (Some (0, 3))
   \<and> GetMinMaxOverDomainInterval falling_gap_curve 0 1 = Inr (Some (1, 3))
   \<and> GetMinMaxOverDomainInterval falling_gap_curve 2 3 = Inr (Some (0, 0))"
proof -
  have l: "lo_interp gap_curve_b (1/2) 1 = Inr (Some (1/2))"
    by (simp add: gap_curve_b_def lo_interp_def read_defs)
  have h: "hi_interp gap_curve_b (1/2) 0 = Inr (Some (1/2))"
    by (simp add: gap_curve_b_def hi_interp_def read_defs)
  have h2: "hi_interp gap_curve_b (5/2) 2 = Inr None"
    by (simp add: gap_curve_b_def hi_interp_def read_defs)
  have q: "GetMinMaxOverDomainInterval gap_curve_b (1/2) (5/2) = Inr (Some (1/2, 1))"
    by (simp add: gap_curve_b_def query_defs)
  have k: "ExplicitSingleValueCurve2D [0, 1, 2, 3]
        \<lparr>elems = [Some 3, Some 1, None, Some 0], stray = []\<rparr> [] = Inr falling_gap_curve"
    by (simp add: construct_4 falling_gap_curve_def GetMinMax_def combine_min_max_def)
  have q2: "GetMinMaxOverDomainInterval falling_gap_curve 0 3 = Inr (Some (0, 3))"
    "GetMinMaxOverDomainInterval falling_gap_curve 0 1 = Inr (Some (1, 3))"
    "GetMinMaxOverDomainInterval falling_gap_curve 2 3 = Inr (Some (0, 0))"
    by (simp_all add: falling_gap_curve_def query_defs)
  have b: "lower_bound [0, 1, 2, 3] 0 = 0" "upper_bound [0, 1, 2, 3] 3 = 4"
    by (simp_all add: lower_bound_def upper_bound_def)
  from C6_gaps_suppress_interpolation[of gap_curve_b "1/2" 1 "1/2" "1/2" 0 "1/2"
      "[0, 1, 2, 3]" "\<lparr>elems = [Some 3, Some 1, None, Some 0], stray = []\<rparr>" "[]"
      falling_gap_curve 0 3 "[]" "[]"]
    l h h2 q q2 k
  show ?thesis unfolding b by simp
qed


text \<open>
  Claim C8: for a query with \<open>xmin \<le> xmax\<close> and no sample in \<open>[xmin, xmax]\<close> the domain
  query returns the gap-aware merge of the two boundary interpolations, possibly empty.
  When a search finds no position the result is empty and nothing is interpolated.
  Otherwise \<open>hi < lo\<close>, both bounds lie on the one segment between the samples \<open>lo - 1\<close> and
  \<open>lo\<close>, and when both y values of the segment are present the two values are the
  interpolations \<open>a\<close> at \<open>xmin\<close> and \<open>b\<close> at \<open>xmax\<close> on that segment and the result is
  \<open>(min a b, max a b)\<close>; when one of them is a gap both values are absent and the result
  is empty. The witness is the example \<open>x = [0, 1, 2]\<close>, \<open>y = [0, 1, 2]\<close>, query
  \<open>(1.25, 1.75)\<close>, result \<open>(1.25, 1.75)\<close>, and the falling segment \<open>x = [0, 1]\<close>,
  \<open>y = [1, 0]\<close>, query \<open>(0.25, 0.75)\<close>, result \<open>(0.25, 0.75)\<close>.
\<close>

theorem C8_no_sample_in_range:
  assumes "valid_curve c"
    and "xmin \<le> xmax"
    and "\<forall>i < length (x_values c). \<not> (xmin \<le> x_values c ! i \<and> x_values c ! i \<le> xmax)"
  shows "if lower_bound (x_values c) xmin = length (x_values c)
            \<or> upper_bound (x_values c) xmax = 0
         then GetMinMaxOverDomainInterval c xmin xmax = Inr None
         else upper_bound (x_values c) xmax - 1 < lower_bound (x_values c) xmin
           \<and> (\<exists>lo_val hi_val.
                 lo_interp c xmin (lower_bound (x_values c) xmin) = Inr lo_val
               \<and> hi_interp c xmax (upper_bound (x_values c) xmax - 1) = Inr hi_val
               \<and> GetMinMaxOverDomainInterval c xmin xmax = Inr (GetMinMax lo_val hi_val)
               \<and> (case (elems (y_values c) ! (lower_bound (x_values c) xmin - 1),
                        elems (y_values c) ! lower_bound (x_values c) xmin) of
                     (Some y0, Some y1) \<Rightarrow>
                        lo_val = Some (interpolate
                                         (x_values c ! (lower_bound (x_values c) xmin - 1)) y0
                                         (x_values c ! lower_bound (x_values c) xmin) y1 xmin)
                      \<and> hi_val = Some (interpolate
                                         (x_values c ! (lower_bound (x_values c) xmin - 1)) y0
                                         (x_values c ! lower_bound (x_values c) xmin) y1 xmax)
                      \<and> GetMinMaxOverDomainInterval c xmin xmax =
                          Inr (Some
                            (min (interpolate
                                    (x_values c ! (lower_bound (x_values c) xmin - 1)) y0
                                    (x_values c ! lower_bound (x_values c) xmin) y1 xmin)
                                 (interpolate
                                    (x_values c ! (lower_bound (x_values c) xmin - 1)) y0
                                    (x_values c ! lower_bound (x_values c) xmin) y1 xmax),
                             max (interpolate
                                    (x_values c ! (lower_bound (x_values c) xmin - 1)) y0
                                    (x_values c ! lower_bound (x_values c) xmin) y1 xmin)
                                 (interpolate
                                    (x_values c ! (lower_bound (x_values c) xmin - 1)) y0
                                    (x_values c ! lower_bound (x_values c) xmin) y1 xmax)))
                   | _ \<Rightarrow> lo_val = None \<and> hi_val = None
                        \<and> GetMinMaxOverDomainInterval c xmin xmax = Inr None))"
proof (cases "lower_bound (x_values c) xmin = length (x_values c)
            \<or> upper_bound (x_values c) xmax = 0")
  case True
  then have "GetMinMaxOverDomainInterval c xmin xmax = Inr None"
    by (auto simp: GetMinMaxOverDomainInterval_def Let_def)
  then show ?thesis using True by simp
next
  case False
  let ?xs = "x_values c" and ?ys = "elems (y_values c)"
  have wf: "length ?xs = length ?ys" using assms(1) by (simp add: valid_curve_def)
  define lo where "lo = lower_bound ?xs xmin"
  define ub where "ub = upper_bound ?xs xmax"
  have found: "lo < length ?xs" "0 < ub"
    using False lower_bound_le[of ?xs xmin] unfolding lo_def ub_def by simp_all
  have "xmin \<le> ?xs ! lo" using lower_bound_at[of ?xs xmin] found(1) unfolding lo_def by simp
  moreover have "\<not> (xmin \<le> ?xs ! lo \<and> ?xs ! lo \<le> xmax)" using assms(3) found(1) by blast
  ultimately have x_lo: "xmax < ?xs ! lo" by simp
  have "ub \<le> lo"
  proof (rule ccontr)
    assume "\<not> ub \<le> lo"
    then have "?xs ! lo \<le> xmax" using upper_bound_before[of lo ?xs xmax] unfolding ub_def by simp
    then show False using x_lo by simp
  qed
  moreover have "lo \<le> ub" unfolding lo_def ub_def using assms(2) by (rule lower_le_upper)
  ultimately have ub: "ub = lo" "0 < lo" using found(2) by simp_all
  have x_prev: "?xs ! (lo - 1) < xmin"
    using lower_bound_before[of "lo - 1" ?xs xmin] ub(2) unfolding lo_def by simp
  have lv: "lo_interp c xmin lo =
      Inr (case (?ys ! lo, ?ys ! (lo - 1)) of
             (Some v_lo, Some v_prev) \<Rightarrow>
               Some (v_prev + (xmin - ?xs ! (lo - 1)) / (?xs ! lo - ?xs ! (lo - 1)) * (v_lo - v_prev))
           | _ \<Rightarrow> None)"
    unfolding lo_interp_value[OF found(1) wf]
    using x_lo x_prev assms(2) ub(2) by simp
  have hv: "hi_interp c xmax (lo - 1) =
      Inr (case (?ys ! (lo - 1), ?ys ! lo) of
             (Some v_hi, Some v_next) \<Rightarrow>
               Some (v_hi + (xmax - ?xs ! (lo - 1)) / (?xs ! lo - ?xs ! (lo - 1)) * (v_next - v_hi))
           | _ \<Rightarrow> None)"
  proof -
    have "lo - 1 < length ?xs - 1" "lo - 1 + 1 = lo" using ub(2) found(1) by simp_all
    then show ?thesis
      unfolding hi_interp_value[OF wf]
      using x_lo x_prev assms(2) by (auto split: option.splits)
  qed
  have empty: "ub - 1 < lo" using ub by simp
  have q: "GetMinMaxOverDomainInterval c xmin xmax =
           and_then (lo_interp c xmin lo) (\<lambda>lo_val.
           and_then (hi_interp c xmax (lo - 1)) (\<lambda>hi_val. Inr (GetMinMax lo_val hi_val)))"
    using query_without_samples[OF found[unfolded lo_def ub_def] empty[unfolded lo_def ub_def]] ub(1)
    unfolding lo_def ub_def by simp
  have "ub - 1 < lo
      \<and> (\<exists>lo_val hi_val.
             lo_interp c xmin lo = Inr lo_val
           \<and> hi_interp c xmax (ub - 1) = Inr hi_val
           \<and> GetMinMaxOverDomainInterval c xmin xmax = Inr (GetMinMax lo_val hi_val)
           \<and> (case (?ys ! (lo - 1), ?ys ! lo) of
                 (Some y0, Some y1) \<Rightarrow>
                    lo_val = Some (interpolate (?xs ! (lo - 1)) y0 (?xs ! lo) y1 xmin)
                  \<and> hi_val = Some (interpolate (?xs ! (lo - 1)) y0 (?xs ! lo) y1 xmax)
                  \<and> GetMinMaxOverDomainInterval c xmin xmax =
                      Inr (Some
                        (min (interpolate (?xs ! (lo - 1)) y0 (?xs ! lo) y1 xmin)
                             (interpolate (?xs ! (lo - 1)) y0 (?xs ! lo) y1 xmax),
                         max (interpolate (?xs ! (lo - 1)) y0 (?xs ! lo) y1 xmin)
                             (interpolate (?xs ! (lo - 1)) y0 (?xs ! lo) y1 xmax)))
               | _ \<Rightarrow> lo_val = None \<and> hi_val = None
                    \<and> GetMinMaxOverDomainInterval c xmin xmax = Inr None))"
    unfolding ub(1) q lv hv using ub(2)
    by (simp add: interpolate_def GetMinMax_def split: option.splits)
  then show ?thesis
    using False unfolding lo_def ub_def by simp
qed

theorem C8_no_sample_in_range_witness:
  "valid_curve three_samples
   \<and> (5/4 :: real) \<le> 7/4
   \<and> \<not> (5/4 \<le> x_values three_samples ! 0 \<and> x_values three_samples ! 0 \<le> 7/4)
   \<and> \<not> (5/4 \<le> x_values three_samples ! 1 \<and> x_values three_samples ! 1 \<le> 7/4)
   \<and> \<not> (5/4 \<le> x_values three_samples ! 2 \<and> x_values three_samples ! 2 \<le> 7/4)
   \<and> lower_bound (x_values three_samples) (5/4) = 2
   \<and> upper_bound (x_values three_samples) (7/4) = 2
   \<and> lo_interp three_samples (5/4) 2 = Inr (Some (5/4))
   \<and> hi_interp three_samples (7/4) 1 = Inr (Some (7/4))
   \<and> GetMinMaxOverDomainInterval three_samples (5/4) (7/4) = Inr (Some (5/4, 7/4))
   \<and> valid_curve falling_samples
   \<and> (1/4 :: real) \<le> 3/4
   \<and> \<not> (1/4 \<le> x_values falling_samples ! 0 \<and> x_values falling_samples ! 0 \<le> 3/4)
   \<and> \<not> (1/4 \<le> x_values falling_samples ! 1 \<and> x_values falling_samples ! 1 \<le> 3/4)
   \<and> lower_bound (x_values falling_samples) (1/4) = 1
   \<and> upper_bound (x_values falling_samples) (3/4) = 1
   \<and> lo_interp falling_samples (1/4) 1 = Inr (Some (3/4))
   \<and> hi_interp falling_samples (3/4) 0 = Inr (Some (1/4))
   \<and> GetMinMaxOverDomainInterval falling_samples (1/4) (3/4) = Inr (Some (1/4, 3/4))"
proof -
  have xs: "x_values three_samples = [0, 1, 2]"
    and ys: "elems (y_values three_samples) = [Some 0, Some 1, Some 2]"
    by (simp_all add: three_samples_def)
  have lb: "lower_bound (x_values three_samples) (5/4) = 2"
    and ub: "upper_bound (x_values three_samples) (7/4) = 2"
    by (simp_all add: xs lower_bound_def upper_bound_def)
  have v: "valid_curve three_samples"
    using construct_three_samples by (rule constructor_valid)
  have h: "(5/4 :: real) \<le> 7/4"
    "\<forall>i < length (x_values three_samples).
        \<not> (5/4 \<le> x_values three_samples ! i \<and> x_values three_samples ! i \<le> 7/4)"
    by (simp_all add: xs less_Suc_eq numeral_3_eq_3)
  have fxs: "x_values falling_samples = [0, 1]"
    and fys: "elems (y_values falling_samples) = [Some 1, Some 0]"
    by (simp_all add: falling_samples_def)
  have flb: "lower_bound (x_values falling_samples) (1/4) = 1"
    and fub: "upper_bound (x_values falling_samples) (3/4) = 1"
    by (simp_all add: fxs lower_bound_def upper_bound_def)
  have fv: "valid_curve falling_samples"
    using construct_falling_samples by (rule constructor_valid)
  have fh: "(1/4 :: real) \<le> 3/4"
    "\<forall>i < length (x_values falling_samples).
        \<not> (1/4 \<le> x_values falling_samples ! i \<and> x_values falling_samples ! i \<le> 3/4)"
    by (simp_all add: fxs less_Suc_eq numeral_2_eq_2)
  have fq: "GetMinMaxOverDomainInterval falling_samples (1/4) (3/4) = Inr (Some (1/4, 3/4))"
    by (simp add: falling_samples_def query_defs)
  have a: "valid_curve three_samples
   \<and> (5/4 :: real) \<le> 7/4
   \<and> \<not> (5/4 \<le> x_values three_samples ! 0 \<and> x_values three_samples ! 0 \<le> 7/4)
   \<and> \<not> (5/4 \<le> x_values three_samples ! 1 \<and> x_values three_samples ! 1 \<le> 7/4)
   \<and> \<not> (5/4 \<le> x_values three_samples ! 2 \<and> x_values three_samples ! 2 \<le> 7/4)
   \<and> lower_bound (x_values three_samples) (5/4) = 2
   \<and> upper_bound (x_values three_samples) (7/4) = 2
   \<and> lo_interp three_samples (5/4) 2 = Inr (Some (5/4))
   \<and> hi_interp three_samples (7/4) 1 = Inr (Some (7/4))
   \<and> GetMinMaxOverDomainInterval three_samples (5/4) (7/4) = Inr (Some (5/4, 7/4))"
    using C8_no_sample_in_range[OF v h]
    unfolding lb ub using v by (auto simp: xs ys interpolate_def)
  have b: "valid_curve falling_samples
   \<and> (1/4 :: real) \<le> 3/4
   \<and> \<not> (1/4 \<le> x_values falling_samples ! 0 \<and> x_values falling_samples ! 0 \<le> 3/4)
   \<and> \<not> (1/4 \<le> x_values falling_samples ! 1 \<and> x_values falling_samples ! 1 \<le> 3/4)
   \<and> lower_bound (x_values falling_samples) (1/4) = 1
   \<and> upper_bound (x_values falling_samples) (3/4) = 1
   \<and> lo_interp falling_samples (1/4) 1 = Inr (Some (3/4))
   \<and> hi_interp falling_samples (3/4) 0 = Inr (Some (1/4))
   \<and> GetMinMaxOverDomainInterval falling_samples (1/4) (3/4) = Inr (Some (1/4, 3/4))"
    using C8_no_sample_in_range[OF fv fh] fq
    unfolding flb fub using fv by (auto simp: fxs fys interpolate_def)
  from a b show ?thesis by simp
qed

text \<open>
  Claim C9: when \<open>xmin\<close> exceeds every sample x value, or \<open>xmax\<close> is less than every
  sample x value, the domain query returns the empty optional, a normal result and no
  error. The witness is \<open>x = [0, 1, 2]\<close>, \<open>y = [0, 1, 2]\<close> with the queries \<open>(3, 4)\<close> and
  \<open>(-4, -3)\<close>.
\<close>

theorem C9_query_outside_the_samples_is_empty:
  assumes "valid_curve c"
    and "(\<forall>x \<in> set (x_values c). x < xmin) \<or> (\<forall>x \<in> set (x_values c). xmax < x)"
  shows "GetMinMaxOverDomainInterval c xmin xmax = Inr None"
  using assms(2)
proof
  assume "\<forall>x \<in> set (x_values c). x < xmin"
  then have "takeWhile (\<lambda>x. x < xmin) (x_values c) = x_values c"
    unfolding takeWhile_eq_all_conv by blast
  then have "lower_bound (x_values c) xmin = length (x_values c)"
    unfolding lower_bound_def by (rule arg_cong)
  then show ?thesis
    by (simp add: GetMinMaxOverDomainInterval_def)
next
  assume a: "\<forall>x \<in> set (x_values c). xmax < x"
  then have "takeWhile (\<lambda>x. \<not> xmax < x) (x_values c) = []"
    by (cases "x_values c") simp_all
  then have "upper_bound (x_values c) xmax = 0"
    by (simp add: upper_bound_def)
  then show ?thesis
    by (simp add: GetMinMaxOverDomainInterval_def Let_def)
qed

theorem C9_query_outside_the_samples_is_empty_witness:
  "ExplicitSingleValueCurve2D [0, 1, 2] \<lparr>elems = [Some 0, Some 1, Some 2], stray = [None]\<rparr> []
     = Inr three_samples
   \<and> valid_curve three_samples
   \<and> ((0::real) < 3 \<and> (1::real) < 3 \<and> (2::real) < 3)
   \<and> GetMinMaxOverDomainInterval three_samples 3 4 = Inr None
   \<and> ((- 3 ::real) < 0 \<and> (- 3 ::real) < 1 \<and> (- 3 ::real) < 2)
   \<and> GetMinMaxOverDomainInterval three_samples (- 4) (- 3) = Inr None"
proof -
  have xs: "x_values three_samples = [0, 1, 2]" by (simp add: three_samples_def)
  have above: "(\<forall>x \<in> set (x_values three_samples). x < 3)
       \<or> (\<forall>x \<in> set (x_values three_samples). 4 < x)"
    by (simp add: xs)
  have below: "(\<forall>x \<in> set (x_values three_samples). x < - 4)
       \<or> (\<forall>x \<in> set (x_values three_samples). - 3 < x)"
    by (simp add: xs)
  have v: "valid_curve three_samples"
    using construct_three_samples by (rule constructor_valid)
  show ?thesis
    using C9_query_outside_the_samples_is_empty[OF v above]
      C9_query_outside_the_samples_is_empty[OF v below] v
    by (simp add: construct_three_samples)
qed

text \<open>
  Claim C10, as amended: for bounds with \<open>xmin > xmax\<close> no sample index is in range (the
  upper bound position is at most the lower bound position) and the result is the same
  for every content of the node array. The domain query returns the empty optional when
  \<open>xmin\<close> exceeds every sample or \<open>xmax\<close> is less than every sample. Otherwise the two
  interpolations are the boundary values of \<open>xmin\<close> and of \<open>xmax\<close>, each on its own
  segment, and the result is \<open>(min a b, max a b)\<close> when both values \<open>a\<close>, \<open>b\<close> exist,
  \<open>(a, a)\<close> when only one value \<open>a\<close> exists, and empty when neither exists; it is not
  empty when \<open>xmin\<close> or \<open>xmax\<close> lies strictly between two neighbouring samples that both
  hold a value. The witness is \<open>x = [0, 1]\<close>, \<open>y = [0, 1]\<close> with the queries
  \<open>(0.75, 0.25)\<close>, result \<open>(0.25, 0.75)\<close>, \<open>(0.5, 0)\<close>, result \<open>(0.5, 0.5)\<close>, and
  \<open>(2, -1)\<close>, result empty.
\<close>

theorem C10_reversed_bounds_use_no_sample:
  assumes "valid_curve c" and "xmax < xmin"
  shows "upper_bound (x_values c) xmax \<le> lower_bound (x_values c) xmin
    \<and> GetMinMaxOverDomainInterval (c\<lparr>intervals := iv\<rparr>) xmin xmax
        = GetMinMaxOverDomainInterval c xmin xmax
    \<and> (lower_bound (x_values c) xmin = length (x_values c)
          \<longleftrightarrow> (\<forall>x \<in> set (x_values c). x < xmin))
    \<and> (upper_bound (x_values c) xmax = 0 \<longleftrightarrow> (\<forall>x \<in> set (x_values c). xmax < x))
    \<and> (if lower_bound (x_values c) xmin = length (x_values c) \<or> upper_bound (x_values c) xmax = 0
        then GetMinMaxOverDomainInterval c xmin xmax = Inr None
        else (\<exists>lo_val hi_val.
               lo_interp c xmin (lower_bound (x_values c) xmin) = Inr lo_val
             \<and> hi_interp c xmax (upper_bound (x_values c) xmax - 1) = Inr hi_val
             \<and> GetMinMaxOverDomainInterval c xmin xmax = Inr (GetMinMax lo_val hi_val)
             \<and> lo_val = lower_boundary_value (x_values c) (elems (y_values c)) xmin
                          (lower_bound (x_values c) xmin)
             \<and> hi_val = upper_boundary_value (x_values c) (elems (y_values c)) xmax
                          (upper_bound (x_values c) xmax - 1)
             \<and> GetMinMaxOverDomainInterval c xmin xmax =
                 Inr (case (lo_val, hi_val) of
                        (Some a, Some b) \<Rightarrow> Some (min a b, max a b)
                      | (Some a, None) \<Rightarrow> Some (a, a)
                      | (None, Some b) \<Rightarrow> Some (b, b)
                      | (None, None) \<Rightarrow> None))
          \<and> ((\<exists>i. i + 1 < length (x_values c)
                  \<and> (x_values c ! i < xmin \<and> xmin < x_values c ! (i + 1)
                     \<or> x_values c ! i < xmax \<and> xmax < x_values c ! (i + 1))
                  \<and> elems (y_values c) ! i \<noteq> None \<and> elems (y_values c) ! (i + 1) \<noteq> None)
               \<longrightarrow> (\<exists>a b. GetMinMaxOverDomainInterval c xmin xmax = Inr (Some (a, b)))))"
proof -
  let ?xs = "x_values c" and ?ys = "elems (y_values c)"
  have wf: "length ?xs = length ?ys"
    using assms(1) by (simp add: valid_curve_def)
  have inc: "strictly_increasing ?xs"
    using assms(1) by (simp add: valid_curve_def)
  have le: "upper_bound ?xs xmax \<le> lower_bound ?xs xmin"
    using assms(2) by (rule upper_le_lower)
  have none: "lower_bound ?xs xmin = length ?xs \<longleftrightarrow> (\<forall>x \<in> set ?xs. x < xmin)"
    "upper_bound ?xs xmax = 0 \<longleftrightarrow> (\<forall>x \<in> set ?xs. xmax < x)"
    using lower_bound_none_iff[of ?xs xmin] upper_bound_none_iff[OF inc, of xmax] assms(1)
    by (simp_all add: valid_curve_def)
  have tree: "GetMinMaxOverDomainInterval (c\<lparr>intervals := iv\<rparr>) xmin xmax
        = GetMinMaxOverDomainInterval c xmin xmax"
    using le by (rule query_without_samples_intervals)
  show ?thesis
  proof (cases "lower_bound ?xs xmin = length ?xs \<or> upper_bound ?xs xmax = 0")
    case True
    then have "GetMinMaxOverDomainInterval c xmin xmax = Inr None"
      by (auto simp: GetMinMaxOverDomainInterval_def Let_def)
    then have "if lower_bound ?xs xmin = length ?xs \<or> upper_bound ?xs xmax = 0
        then GetMinMaxOverDomainInterval c xmin xmax = Inr None
        else E" for E
      using True by simp
    then show ?thesis
      by (intro conjI le tree none)
  next
    case False
    define lo where "lo = lower_bound ?xs xmin"
    define hi where "hi = upper_bound ?xs xmax - 1"
    define lv where "lv = lower_boundary_value ?xs ?ys xmin lo"
    define hv where "hv = upper_boundary_value ?xs ?ys xmax hi"
    from False have f: "lower_bound ?xs xmin < length ?xs" "0 < upper_bound ?xs xmax"
      using lower_bound_le[of ?xs xmin] by simp_all
    then have e: "upper_bound ?xs xmax - 1 < lower_bound ?xs xmin" using le by simp
    have l: "lo_interp c xmin lo = Inr lv"
      unfolding lo_def lv_def using wf f(1) by (rule lo_interp_boundary)
    have h: "hi_interp c xmax hi = Inr hv"
      unfolding hi_def hv_def using wf f(2) by (rule hi_interp_boundary)
    have q: "GetMinMaxOverDomainInterval c xmin xmax = Inr (GetMinMax lv hv)"
      unfolding query_without_samples[OF f e] l[unfolded lo_def] h[unfolded hi_def] by simp
    have x: "GetMinMaxOverDomainInterval c xmin xmax =
                 Inr (case (lv, hv) of
                        (Some a, Some b) \<Rightarrow> Some (min a b, max a b)
                      | (Some a, None) \<Rightarrow> Some (a, a)
                      | (None, Some b) \<Rightarrow> Some (b, b)
                      | (None, None) \<Rightarrow> None)"
      unfolding q GetMinMax_def by simp
    have ne: "\<exists>a b. GetMinMaxOverDomainInterval c xmin xmax = Inr (Some (a, b))"
      if i: "i + 1 < length ?xs"
        and b: "?xs ! i < xmin \<and> xmin < ?xs ! (i + 1) \<or> ?xs ! i < xmax \<and> xmax < ?xs ! (i + 1)"
        and y: "?ys ! i \<noteq> None" "?ys ! (i + 1) \<noteq> None" for i
      using b
    proof
      assume a: "?xs ! i < xmin \<and> xmin < ?xs ! (i + 1)"
      then have "lo = i + 1" unfolding lo_def using lower_bound_between[OF inc i] by simp
      then have "lv \<noteq> None"
        unfolding lv_def lower_boundary_value_def using a y by (auto split: option.splits)
      then show ?thesis unfolding x by (auto split: option.splits)
    next
      assume a: "?xs ! i < xmax \<and> xmax < ?xs ! (i + 1)"
      then have "hi = i" unfolding hi_def using upper_bound_between[OF inc i] by simp
      then have "hv \<noteq> None"
        unfolding hv_def upper_boundary_value_def using a y i by (auto split: option.splits)
      then show ?thesis unfolding x by (auto split: option.splits)
    qed
    have A: "\<exists>lo_val hi_val.
               lo_interp c xmin lo = Inr lo_val
             \<and> hi_interp c xmax hi = Inr hi_val
             \<and> GetMinMaxOverDomainInterval c xmin xmax = Inr (GetMinMax lo_val hi_val)
             \<and> lo_val = lower_boundary_value ?xs ?ys xmin lo
             \<and> hi_val = upper_boundary_value ?xs ?ys xmax hi
             \<and> GetMinMaxOverDomainInterval c xmin xmax =
                 Inr (case (lo_val, hi_val) of
                        (Some a, Some b) \<Rightarrow> Some (min a b, max a b)
                      | (Some a, None) \<Rightarrow> Some (a, a)
                      | (None, Some b) \<Rightarrow> Some (b, b)
                      | (None, None) \<Rightarrow> None)"
      using l h q x unfolding lv_def hv_def by blast
    have B: "(\<exists>i. i + 1 < length ?xs
                  \<and> (?xs ! i < xmin \<and> xmin < ?xs ! (i + 1)
                     \<or> ?xs ! i < xmax \<and> xmax < ?xs ! (i + 1))
                  \<and> ?ys ! i \<noteq> None \<and> ?ys ! (i + 1) \<noteq> None)
               \<longrightarrow> (\<exists>a b. GetMinMaxOverDomainInterval c xmin xmax = Inr (Some (a, b)))"
      using ne by blast
    note els = conjI[OF A[unfolded lo_def hi_def] B]
    show ?thesis
      unfolding if_not_P[OF False]
      by (rule conjI[OF le conjI[OF tree conjI[OF none(1) conjI[OF none(2) els]]]])
  qed
qed

theorem C10_reversed_bounds_use_no_sample_witness:
  "valid_curve two_samples
   \<and> (1/4 :: real) < 3/4
   \<and> upper_bound (x_values two_samples) (1/4) = 1
   \<and> lower_bound (x_values two_samples) (3/4) = 1
   \<and> lo_interp two_samples (3/4) 1 = Inr (Some (3/4))
   \<and> hi_interp two_samples (1/4) 0 = Inr (Some (1/4))
   \<and> lower_boundary_value (x_values two_samples) (elems (y_values two_samples)) (3/4) 1
       = Some (3/4)
   \<and> upper_boundary_value (x_values two_samples) (elems (y_values two_samples)) (1/4) 0
       = Some (1/4)
   \<and> GetMinMaxOverDomainInterval two_samples (3/4) (1/4) = Inr (Some (1/4, 3/4))
   \<and> GetMinMaxOverDomainInterval (two_samples\<lparr>intervals := \<lparr>elems = [], stray = []\<rparr>\<rparr>)
         (3/4) (1/4) = Inr (Some (1/4, 3/4))
   \<and> (0::nat) + 1 < length (x_values two_samples)
   \<and> x_values two_samples ! 0 < 3/4 \<and> 3/4 < x_values two_samples ! (0 + 1)
   \<and> elems (y_values two_samples) ! 0 \<noteq> None
   \<and> elems (y_values two_samples) ! (0 + 1) \<noteq> None
   \<and> (0 :: real) < 1/2
   \<and> upper_bound (x_values two_samples) 0 = 1
   \<and> lower_bound (x_values two_samples) (1/2) = 1
   \<and> lo_interp two_samples (1/2) 1 = Inr (Some (1/2))
   \<and> hi_interp two_samples 0 0 = Inr None
   \<and> GetMinMaxOverDomainInterval two_samples (1/2) 0 = Inr (Some (1/2, 1/2))
   \<and> (- 1 :: real) < 2
   \<and> ((0 :: real) < 2 \<and> (1 :: real) < 2)
   \<and> lower_bound (x_values two_samples) 2 = length (x_values two_samples)
   \<and> ((- 1 :: real) < 0 \<and> (- 1 :: real) < 1)
   \<and> upper_bound (x_values two_samples) (- 1) = 0
   \<and> GetMinMaxOverDomainInterval two_samples 2 (- 1) = Inr None"
proof -
  have xs: "x_values two_samples = [0, 1]"
    and ys: "elems (y_values two_samples) = [Some 0, Some 1]"
    by (simp_all add: two_samples_def)
  have h: "valid_curve two_samples" "(1/4 :: real) < 3/4"
    using constructor_valid[OF construct_two_samples] by simp_all
  have h': "(0 :: real) < 1/2" by simp
  have h'': "(- 1 :: real) < 2" by simp
  have o: "\<forall>x \<in> set (x_values two_samples). x < 2"
    "\<forall>x \<in> set (x_values two_samples). - 1 < x"
    by (simp_all add: two_samples_def)
  have b: "upper_bound (x_values two_samples) (1/4) = 1"
    "lower_bound (x_values two_samples) (3/4) = 1"
    "upper_bound (x_values two_samples) 0 = 1"
    "lower_bound (x_values two_samples) (1/2) = 1"
    by (simp_all add: xs lower_bound_def upper_bound_def)
  have l: "lo_interp two_samples (3/4) 1 = Inr (Some (3/4))"
    "lo_interp two_samples (1/2) 1 = Inr (Some (1/2))"
    by (simp_all add: two_samples_def lo_interp_def read_defs)
  have r: "hi_interp two_samples (1/4) 0 = Inr (Some (1/4))"
    "hi_interp two_samples 0 0 = Inr None"
    by (simp_all add: two_samples_def hi_interp_def read_defs)
  have v: "lower_boundary_value [0, 1] [Some 0, Some 1] (3/4) 1 = Some (3/4)"
    "upper_boundary_value [0, 1] [Some 0, Some 1] (1/4) 0 = Some (1/4)"
    by (simp_all add: lower_boundary_value_def upper_boundary_value_def interpolate_def)
  have q: "GetMinMaxOverDomainInterval two_samples (3/4) (1/4) = Inr (Some (1/4, 3/4))"
    "GetMinMaxOverDomainInterval two_samples (1/2) 0 = Inr (Some (1/2, 1/2))"
    by (simp_all add: two_samples_def query_defs)
  from C10_reversed_bounds_use_no_sample[OF h, of "\<lparr>elems = [], stray = []\<rparr>"]
    C10_reversed_bounds_use_no_sample[OF h(1) h']
    C10_reversed_bounds_use_no_sample[OF h(1) h'']
  show ?thesis
    unfolding b using l r q h(1) o by (simp add: xs ys v)
qed

text \<open>
  Claim C10 as stated, that the result is empty whenever \<open>xmin > xmax\<close>, fails: for
  \<open>x = [0, 1]\<close>, \<open>y = [0, 1]\<close> the query \<open>(0.75, 0.25)\<close> returns \<open>(0.25, 0.75)\<close>, the two
  boundary interpolations.
\<close>

theorem C10_reversed_bounds_counterexample:
  "ExplicitSingleValueCurve2D [0, 1] \<lparr>elems = [Some 0, Some 1], stray = []\<rparr> [] = Inr two_samples
   \<and> (3/4 :: real) > 1/4
   \<and> GetMinMaxOverDomainInterval two_samples (3/4) (1/4) = Inr (Some (1/4, 3/4))
   \<and> GetMinMaxOverDomainInterval two_samples (3/4) (1/4) \<noteq> Inr None"
  by (simp add: construct_two_samples) (simp add: two_samples_def query_defs)

end
